theory Spec2Isabelle
  imports Complex_Main
begin

section \<open>Values, errors and Python containers\<close>

text \<open>
  Python floats are modelled as exact reals: every comparison, square root and division
  below is the mathematical one. What HOL would leave silent is written out as an error
  value: a division by zero (\<open>ZeroDivisionError\<close>), \<open>math.sqrt\<close> of a negative number
  (\<open>ValueError\<close>), a list read out of range (\<open>IndexError\<close>), a missing dictionary key
  (\<open>KeyError\<close>) and \<open>set.intersection\<close> without an argument (\<open>TypeError\<close>).
\<close>

type_synonym point = "real \<times> real"

datatype error = IndexError | KeyError | ZeroDivisionError | ValueError | TypeError

definition bindE :: "error + 'a \<Rightarrow> ('a \<Rightarrow> error + 'b) \<Rightarrow> error + 'b" where
  "bindE m f = (case m of Inl e \<Rightarrow> Inl e | Inr x \<Rightarrow> f x)"

definition getitem :: "'a list \<Rightarrow> nat \<Rightarrow> error + 'a" where
  "getitem xs i = (if i < length xs then Inr (xs ! i) else Inl IndexError)"

definition lookup :: "('k \<rightharpoonup> 'v) \<Rightarrow> 'k \<Rightarrow> error + 'v" where
  "lookup m k = (case m k of None \<Rightarrow> Inl KeyError | Some v \<Rightarrow> Inr v)"

text \<open>A \<open>for\<close> loop over a list that threads a state and stops at the first exception.\<close>

fun foldE :: "('s \<Rightarrow> 'a \<Rightarrow> error + 's) \<Rightarrow> 'a list \<Rightarrow> 's \<Rightarrow> error + 's" where
  "foldE f [] s = Inr s"
| "foldE f (x # xs) s = bindE (f s x) (foldE f xs)"

fun mapE :: "('a \<Rightarrow> error + 'b) \<Rightarrow> 'a list \<Rightarrow> error + 'b list" where
  "mapE f [] = Inr []"
| "mapE f (x # xs) = bindE (f x) (\<lambda>y. bindE (mapE f xs) (\<lambda>ys. Inr (y # ys)))"

text \<open>A \<open>for\<close> loop that returns from the function at the first element that succeeds.\<close>

fun first_some :: "('a \<Rightarrow> error + 'b option) \<Rightarrow> 'a list \<Rightarrow> error + 'b option" where
  "first_some f [] = Inr None"
| "first_some f (x # xs) =
     bindE (f x) (\<lambda>r. case r of Some y \<Rightarrow> Inr (Some y) | None \<Rightarrow> first_some f xs)"

text \<open>A \<open>for\<close> loop that clears a flag and breaks at the first element that fails.\<close>

fun allE :: "('a \<Rightarrow> error + bool) \<Rightarrow> 'a list \<Rightarrow> error + bool" where
  "allE P [] = Inr True"
| "allE P (x # xs) = bindE (P x) (\<lambda>b. if b then allE P xs else Inr False)"

text \<open>
  A Python set of ball indices is a list without repetition in the order of iteration,
  taken to be ascending (the order CPython gives small non-negative integers).
\<close>

definition set_add :: "nat \<Rightarrow> nat list \<Rightarrow> nat list" where
  "set_add x xs = (if x \<in> set xs then xs else insort x xs)"

definition set_intersection :: "nat list list \<Rightarrow> error + nat list" where
  "set_intersection xss =
     (case xss of [] \<Rightarrow> Inl TypeError
      | xs # rest \<Rightarrow> Inr (filter (\<lambda>c. \<forall>ys \<in> set rest. c \<in> set ys) xs))"

definition set_difference :: "nat list \<Rightarrow> nat list \<Rightarrow> nat list" where
  "set_difference xs ys = filter (\<lambda>c. c \<notin> set ys) xs"

text \<open>\<open>itertools.combinations\<close>: the sublists of a given length, in lexicographic order of position.\<close>

fun combinations :: "'a list \<Rightarrow> nat \<Rightarrow> 'a list list" where
  "combinations xs 0 = [[]]"
| "combinations [] (Suc k) = []"
| "combinations (x # xs) (Suc k) = map ((#) x) (combinations xs k) @ combinations xs (Suc k)"

definition enumerate_py :: "'a list \<Rightarrow> (nat \<times> 'a) list" where
  "enumerate_py xs = zip [0..<length xs] xs"

section \<open>Geometric primitives\<close>

definition get_intersections ::
  "real \<Rightarrow> real \<Rightarrow> real \<Rightarrow> real \<Rightarrow> real \<Rightarrow> real \<Rightarrow> error + point list" where
  "get_intersections x0 y0 r0 x1 y1 r1 =
     (let d = sqrt ((x1 - x0)\<^sup>2 + (y1 - y0)\<^sup>2) in
      if d > r0 + r1 then Inr []
      else if d < \<bar>r0 - r1\<bar> then Inr []
      else if d = 0 \<and> r0 = r1 then Inr []
      else if 2 * d = 0 then Inl ZeroDivisionError
      else
        let a = (r0\<^sup>2 - r1\<^sup>2 + d\<^sup>2) / (2 * d) in
        if r0\<^sup>2 - a\<^sup>2 < 0 then Inl ValueError
        else
          let h = sqrt (r0\<^sup>2 - a\<^sup>2) in
          if d = 0 then Inl ZeroDivisionError
          else
            let x2 = x0 + a * (x1 - x0) / d;
                y2 = y0 + a * (y1 - y0) / d;
                x3 = x2 + h * (y1 - y0) / d;
                y3 = y2 - h * (x1 - x0) / d;
                x4 = x2 - h * (y1 - y0) / d;
                y4 = y2 + h * (x1 - x0) / d
            in Inr [(x3, y3), (x4, y4)])"

definition dist_cells :: "point list \<Rightarrow> nat \<Rightarrow> nat \<Rightarrow> error + real" where
  "dist_cells ps i j =
     bindE (getitem ps i) (\<lambda>(x1, y1).
     bindE (getitem ps j) (\<lambda>(x2, y2).
     Inr (sqrt ((x1 - x2)\<^sup>2 + (y1 - y2)\<^sup>2))))"

definition isCellInsideCell :: "point list \<Rightarrow> real list \<Rightarrow> nat \<Rightarrow> nat \<Rightarrow> error + bool" where
  "isCellInsideCell ps rs i j =
     bindE (dist_cells ps i j) (\<lambda>d.
     bindE (getitem rs i) (\<lambda>ri.
     bindE (getitem rs j) (\<lambda>rj.
     Inr (d \<le> \<bar>ri - rj\<bar>))))"

definition isPointInsideCell :: "point list \<Rightarrow> real list \<Rightarrow> point \<Rightarrow> nat \<Rightarrow> error + bool" where
  "isPointInsideCell ps rs p cellid =
     bindE (getitem ps cellid) (\<lambda>(x1, y1).
     case p of (x2, y2) \<Rightarrow>
     bindE (getitem rs cellid) (\<lambda>r.
     Inr ((x1 - x2)\<^sup>2 + (y1 - y2)\<^sup>2 \<le> r\<^sup>2)))"

definition intersects :: "point list \<Rightarrow> real list \<Rightarrow> nat \<Rightarrow> nat \<Rightarrow> error + bool" where
  "intersects ps rs i j =
     bindE (dist_cells ps i j) (\<lambda>d.
     bindE (getitem ps i) (\<lambda>(x1, y1).
     bindE (getitem ps j) (\<lambda>(x2, y2).
     bindE (getitem rs i) (\<lambda>ri.
     bindE (getitem rs j) (\<lambda>rj.
     Inr (if d > ri + rj then False else True))))))"

definition intersection :: "point list \<Rightarrow> real list \<Rightarrow> nat \<Rightarrow> nat \<Rightarrow> error + point list" where
  "intersection ps rs i j =
     bindE (getitem ps i) (\<lambda>(x1, y1).
     bindE (getitem ps j) (\<lambda>(x2, y2).
     bindE (getitem rs i) (\<lambda>ri.
     bindE (getitem rs j) (\<lambda>rj.
     get_intersections x1 y1 ri x2 y2 rj))))"

section \<open>Levels 0 and 1: the neighbour graph\<close>

definition sim0 :: "nat \<Rightarrow> nat list list" where
  "sim0 n = map (\<lambda>i. [i]) [0..<n]"

text \<open>
  The body of the inner loop of \<open>sim1\<close>: the state is the neighbour table and the list
  of edges found so far.
\<close>

definition sim1_step ::
  "point list \<Rightarrow> real list \<Rightarrow> nat \<Rightarrow> nat list list \<times> nat list list \<Rightarrow> nat
     \<Rightarrow> error + (nat list list \<times> nat list list)" where
  "sim1_step ps rs i st j =
     (case st of (nb, S1) \<Rightarrow>
      bindE (intersects ps rs i j) (\<lambda>b.
      if b then
        bindE (getitem nb i) (\<lambda>ni.
        let nb1 = nb[i := set_add j ni] in
        bindE (getitem nb1 j) (\<lambda>nj.
        Inr (nb1[j := set_add i nj], S1 @ [[i, j]])))
      else Inr (nb, S1)))"

definition sim1 :: "point list \<Rightarrow> real list \<Rightarrow> nat \<Rightarrow> error + (nat list list \<times> nat list list)" where
  "sim1 ps rs n =
     foldE (\<lambda>st i. foldE (sim1_step ps rs i) [i + 1..<n] st) [0..<n] (replicate n [], [])"

section \<open>Verification of a candidate simplex\<close>

text \<open>The two loops shared by both strategies: the ball of least radius, and the containment test.\<close>

definition find_smallest :: "real list \<Rightarrow> nat list \<Rightarrow> error + nat" where
  "find_smallest rs cells =
     bindE (getitem cells 0) (\<lambda>c0.
     foldE (\<lambda>smallest c.
        bindE (getitem rs c) (\<lambda>rc.
        bindE (getitem rs smallest) (\<lambda>rsm.
        Inr (if rc < rsm then c else smallest)))) cells c0)"

definition all_inside :: "point list \<Rightarrow> real list \<Rightarrow> nat list \<Rightarrow> nat \<Rightarrow> error + bool" where
  "all_inside ps rs cells smallest =
     foldE (\<lambda>inside c.
        if c = smallest then Inr inside
        else bindE (isCellInsideCell ps rs c smallest) (\<lambda>b.
             Inr (if b then inside else False))) cells True"

subsection \<open>Baseline strategy\<close>

definition CechComplexLE_verify :: "point list \<Rightarrow> real list \<Rightarrow> nat list \<Rightarrow> error + bool" where
  "CechComplexLE_verify ps rs cells =
     bindE (find_smallest rs cells) (\<lambda>smallest.
     bindE (all_inside ps rs cells smallest) (\<lambda>inside.
     if inside then Inr True
     else
       bindE (mapE (\<lambda>ij. case ij of [i, j] \<Rightarrow>
                 bindE (intersection ps rs i j) (\<lambda>x. Inr (map (\<lambda>p. (p, i, j)) x))
               | _ \<Rightarrow> Inr [])
              (combinations cells 2)) (\<lambda>inters.
       bindE (first_some (\<lambda>(p, i, j).
                 bindE (allE (\<lambda>cellid.
                          if cellid = i \<or> cellid = j then Inr True
                          else isPointInsideCell ps rs p cellid) cells) (\<lambda>exists.
                 Inr (if exists then Some p else None)))
              (concat inters)) (\<lambda>r.
       Inr (r \<noteq> None)))))"

subsection \<open>Witness-caching strategy\<close>

text \<open>
  The result \<open>(True, p)\<close> of the source is \<open>Some p\<close> and \<open>(False, [])\<close> is \<open>None\<close>. The
  memo table \<open>self.intersections\<close> is keyed by \<open>frozenset\<close>, here a set of indices.
\<close>

definition point_in_others ::
  "point list \<Rightarrow> real list \<Rightarrow> nat list \<Rightarrow> nat \<Rightarrow> nat \<Rightarrow> point \<Rightarrow> error + point option" where
  "point_in_others ps rs cells i j p =
     bindE (allE (\<lambda>(k, cellid).
              if k = i \<or> k = j then Inr True
              else isPointInsideCell ps rs p cellid) (enumerate_py cells)) (\<lambda>exists.
     Inr (if exists then Some p else None))"

definition verify_fallback :: "point list \<Rightarrow> real list \<Rightarrow> nat list \<Rightarrow> error + point option" where
  "verify_fallback ps rs cells =
     (let i = length cells - 1 in
      first_some (\<lambda>j.
        bindE (getitem cells i) (\<lambda>ci.
        bindE (getitem cells j) (\<lambda>cj.
        bindE (intersection ps rs ci cj) (\<lambda>x.
        first_some (point_in_others ps rs cells i j) x)))) [0..<i])"

text \<open>
  The witness-reuse stage of \<open>verify\<close>: with two earlier vertices, the crossings of their
  circles tested against the new ball; with more, the memoised witness of the earlier
  vertices tested against the new ball.
\<close>

definition verify_reuse ::
  "point list \<Rightarrow> real list \<Rightarrow> (nat set \<rightharpoonup> point) \<Rightarrow> nat list \<Rightarrow> error + point option" where
  "verify_reuse ps rs intersections cells =
     bindE (if cells = [] then Inl IndexError else Inr (last cells)) (\<lambda>new_cand.
     let pre_set = butlast cells in
     if length pre_set = 2 then
       bindE (getitem cells 0) (\<lambda>c0.
       bindE (getitem cells 1) (\<lambda>c1.
       bindE (intersection ps rs c0 c1) (\<lambda>x.
       first_some (\<lambda>p. bindE (isPointInsideCell ps rs p new_cand) (\<lambda>b.
                        Inr (if b then Some p else None))) x)))
     else if length pre_set > 2 then
       bindE (lookup intersections (set pre_set)) (\<lambda>w.
       bindE (isPointInsideCell ps rs w new_cand) (\<lambda>b.
       if b then bindE (lookup intersections (set pre_set)) (\<lambda>w'. Inr (Some w'))
       else Inr None))
     else Inr None)"

definition CechComplex_verify ::
  "point list \<Rightarrow> real list \<Rightarrow> (nat set \<rightharpoonup> point) \<Rightarrow> nat list \<Rightarrow> error + point option" where
  "CechComplex_verify ps rs intersections cells =
     bindE (find_smallest rs cells) (\<lambda>smallest.
     bindE (all_inside ps rs cells smallest) (\<lambda>inside.
     if inside then bindE (getitem ps smallest) (\<lambda>c. Inr (Some c))
     else
       bindE (verify_reuse ps rs intersections cells) (\<lambda>shortcut.
       case shortcut of Some p \<Rightarrow> Inr (Some p)
       | None \<Rightarrow> verify_fallback ps rs cells)))"

section \<open>Candidate generation and the level loop\<close>

definition cutoff :: "int option \<Rightarrow> nat \<Rightarrow> bool" where
  "cutoff maxK k = (case maxK of None \<Rightarrow> False | Some m \<Rightarrow> m \<noteq> 0 \<and> int k > m)"

subsection \<open>Baseline strategy\<close>

definition CechComplexLE_getCandidates :: "nat list list \<Rightarrow> nat \<Rightarrow> nat \<Rightarrow> error + nat list list" where
  "CechComplexLE_getCandidates nb n k =
     bindE (mapE (\<lambda>i. bindE (getitem nb i) (\<lambda>ni.
              Inr (map (\<lambda>cand. i # cand) (combinations ni k)))) [0..<n]) (\<lambda>css.
     Inr (concat css))"

definition CechComplexLE_simk_level ::
  "point list \<Rightarrow> real list \<Rightarrow> nat list list \<Rightarrow> nat \<Rightarrow> nat \<Rightarrow> error + nat list list" where
  "CechComplexLE_simk_level ps rs nb n k =
     bindE (CechComplexLE_getCandidates nb n k) (\<lambda>cands.
     foldE (\<lambda>Sk cand. bindE (CechComplexLE_verify ps rs cand) (\<lambda>ok.
              Inr (if ok then Sk @ [cand] else Sk))) cands [])"

partial_function (option) CechComplexLE_simk ::
  "point list \<Rightarrow> real list \<Rightarrow> int option \<Rightarrow> nat list list \<Rightarrow> nat \<Rightarrow> nat
     \<Rightarrow> nat list list list \<Rightarrow> (error + nat list list list) option" where
  "CechComplexLE_simk ps rs maxK nb n k S =
     (if cutoff maxK k then Some (Inr S)
      else case CechComplexLE_simk_level ps rs nb n k of
             Inl e \<Rightarrow> Some (Inl e)
           | Inr Sk \<Rightarrow>
               if length Sk = 0 then Some (Inr S)
               else CechComplexLE_simk ps rs maxK nb n (k + 1) (S @ [Sk]))"

definition CechComplexLE_cech ::
  "point list \<Rightarrow> real list \<Rightarrow> int option \<Rightarrow> (error + nat list list list) option" where
  "CechComplexLE_cech ps rs maxK =
     (let n = length ps in
      case sim1 ps rs n of
        Inl e \<Rightarrow> Some (Inl e)
      | Inr (nb, S1) \<Rightarrow> CechComplexLE_simk ps rs maxK nb n 2 [sim0 n, S1])"

subsection \<open>Witness-caching strategy\<close>

definition CechComplex_getCandidates ::
  "nat list list \<Rightarrow> nat list list list \<Rightarrow> nat \<Rightarrow> error + nat list list" where
  "CechComplex_getCandidates nb S k =
     bindE (getitem S (k - 1)) (\<lambda>level.
     bindE (mapE (\<lambda>s.
              bindE (mapE (getitem nb) s) (\<lambda>nbs.
              bindE (set_intersection nbs) (\<lambda>common.
              Inr (map (\<lambda>c. s @ [c]) (set_difference common s))))) level) (\<lambda>css.
     Inr (concat css)))"

text \<open>
  The body of the loop of \<open>_simk\<close>: the state is the level under construction, the memo
  table \<open>self.intersections\<close> and the dictionary \<open>verified\<close>.
\<close>

definition CechComplex_simk_step ::
  "point list \<Rightarrow> real list
     \<Rightarrow> nat list list \<times> (nat set \<rightharpoonup> point) \<times> (nat set \<rightharpoonup> bool) \<Rightarrow> nat list
     \<Rightarrow> error + (nat list list \<times> (nat set \<rightharpoonup> point) \<times> (nat set \<rightharpoonup> bool))" where
  "CechComplex_simk_step ps rs st cand =
     (case st of (Sk, intersections, verified) \<Rightarrow>
      let ns_sig = set cand in
      if verified ns_sig \<noteq> None then Inr (Sk, intersections, verified)
      else
        bindE (CechComplex_verify ps rs intersections cand) (\<lambda>r.
        case r of
          Some witness \<Rightarrow>
            Inr (Sk @ [cand], intersections(ns_sig \<mapsto> witness), verified(ns_sig \<mapsto> True))
        | None \<Rightarrow> Inr (Sk, intersections, verified(ns_sig \<mapsto> False))))"

definition CechComplex_simk_level ::
  "point list \<Rightarrow> real list \<Rightarrow> nat list list \<Rightarrow> nat list list list \<Rightarrow> nat
     \<Rightarrow> (nat set \<rightharpoonup> point) \<Rightarrow> (nat set \<rightharpoonup> bool)
     \<Rightarrow> error + (nat list list \<times> (nat set \<rightharpoonup> point) \<times> (nat set \<rightharpoonup> bool))" where
  "CechComplex_simk_level ps rs nb S k intersections verified =
     bindE (CechComplex_getCandidates nb S k) (\<lambda>cands.
     foldE (CechComplex_simk_step ps rs) cands ([], intersections, verified))"

partial_function (option) CechComplex_simk ::
  "point list \<Rightarrow> real list \<Rightarrow> int option \<Rightarrow> nat list list \<Rightarrow> nat
     \<Rightarrow> nat list list list \<Rightarrow> (nat set \<rightharpoonup> point) \<Rightarrow> (nat set \<rightharpoonup> bool)
     \<Rightarrow> (error + (nat list list list \<times> (nat set \<rightharpoonup> point))) option" where
  "CechComplex_simk ps rs maxK nb k S intersections verified =
     (if cutoff maxK k then Some (Inr (S, intersections))
      else case CechComplex_simk_level ps rs nb S k intersections verified of
             Inl e \<Rightarrow> Some (Inl e)
           | Inr (Sk, intersections', verified') \<Rightarrow>
               if length Sk \<noteq> 0
               then CechComplex_simk ps rs maxK nb (k + 1) (S @ [Sk]) intersections' verified'
               else Some (Inr (S, intersections')))"

text \<open>
  \<open>CechComplex_run\<close> is \<open>cech\<close> together with the memo table it leaves in
  \<open>self.intersections\<close>; \<open>CechComplex_cech\<close> is the value \<open>cech\<close> returns.
\<close>

definition CechComplex_run ::
  "point list \<Rightarrow> real list \<Rightarrow> int option
     \<Rightarrow> (error + (nat list list list \<times> (nat set \<rightharpoonup> point))) option" where
  "CechComplex_run ps rs maxK =
     (let n = length ps in
      case sim1 ps rs n of
        Inl e \<Rightarrow> Some (Inl e)
      | Inr (nb, S1) \<Rightarrow> CechComplex_simk ps rs maxK nb 2 [sim0 n, S1] Map.empty Map.empty)"

definition CechComplex_cech ::
  "point list \<Rightarrow> real list \<Rightarrow> int option \<Rightarrow> (error + nat list list list) option" where
  "CechComplex_cech ps rs maxK =
     map_option (map_sum id fst) (CechComplex_run ps rs maxK)"

section \<open>Specification notions\<close>

text \<open>Euclidean distance between two points, and membership in a closed disc
  (compared on squares, as \<open>isPointInsideCell\<close> does).\<close>

definition cdist :: "point \<Rightarrow> point \<Rightarrow> real" where
  "cdist p q = sqrt ((fst p - fst q)\<^sup>2 + (snd p - snd q)\<^sup>2)"

definition in_disc :: "point \<Rightarrow> point \<Rightarrow> real \<Rightarrow> bool" where
  "in_disc p c r = ((fst c - fst p)\<^sup>2 + (snd c - snd p)\<^sup>2 \<le> r\<^sup>2)"

text \<open>The points \<open>get_intersections\<close> returns, with its three guards merged.\<close>

definition gi_points :: "real \<Rightarrow> real \<Rightarrow> real \<Rightarrow> real \<Rightarrow> real \<Rightarrow> real \<Rightarrow> point list" where
  "gi_points x0 y0 r0 x1 y1 r1 =
     (let d = sqrt ((x1 - x0)\<^sup>2 + (y1 - y0)\<^sup>2);
          a = (r0\<^sup>2 - r1\<^sup>2 + d\<^sup>2) / (2 * d);
          h = sqrt (r0\<^sup>2 - a\<^sup>2)
      in if d > r0 + r1 \<or> d < \<bar>r0 - r1\<bar> \<or> d = 0 then []
         else [(x0 + a * (x1 - x0) / d + h * (y1 - y0) / d, y0 + a * (y1 - y0) / d - h * (x1 - x0) / d),
               (x0 + a * (x1 - x0) / d - h * (y1 - y0) / d, y0 + a * (y1 - y0) / d + h * (x1 - x0) / d)])"

text \<open>The first success of a pure partial function along a list.\<close>

fun firstP :: "('a \<Rightarrow> 'b option) \<Rightarrow> 'a list \<Rightarrow> 'b option" where
  "firstP g [] = None"
| "firstP g (x # xs) = (case g x of Some y \<Rightarrow> Some y | None \<Rightarrow> firstP g xs)"

text \<open>The ball of least radius as \<open>verify\<close> finds it: the first one among those of least radius.\<close>

definition smallest_of :: "real list \<Rightarrow> nat list \<Rightarrow> nat" where
  "smallest_of rs cells = foldl (\<lambda>sm c. if rs ! c < rs ! sm then c else sm) (hd cells) cells"

text \<open>The containment shortcut: every ball other than \<open>sm\<close> passes \<open>isCellInsideCell\<close> against it.\<close>

definition contains_all :: "point list \<Rightarrow> real list \<Rightarrow> nat list \<Rightarrow> nat \<Rightarrow> bool" where
  "contains_all ps rs cells sm =
     (\<forall>c \<in> set cells. c = sm \<or> cdist (ps ! c) (ps ! sm) \<le> \<bar>rs ! c - rs ! sm\<bar>)"

text \<open>The boundary crossings of the circles of balls \<open>i\<close> and \<open>j\<close>.\<close>

definition cpts :: "point list \<Rightarrow> real list \<Rightarrow> nat \<Rightarrow> nat \<Rightarrow> point list" where
  "cpts ps rs i j =
     gi_points (fst (ps ! i)) (snd (ps ! i)) (rs ! i) (fst (ps ! j)) (snd (ps ! j)) (rs ! j)"

text \<open>Two balls overlap, as \<open>intersects\<close> decides it.\<close>

definition overlap :: "point list \<Rightarrow> real list \<Rightarrow> nat \<Rightarrow> nat \<Rightarrow> bool" where
  "overlap ps rs i j = (\<not> cdist (ps ! i) (ps ! j) > rs ! i + rs ! j)"

text \<open>Point \<open>p\<close> lies in the disc of every ball of the list \<open>cells\<close>, the positions
  \<open>i\<close> and \<open>j\<close> apart.\<close>

definition in_others :: "point list \<Rightarrow> real list \<Rightarrow> nat list \<Rightarrow> nat \<Rightarrow> nat \<Rightarrow> point \<Rightarrow> bool" where
  "in_others ps rs cells i j p =
     (\<forall>k < length cells. k = i \<or> k = j \<or> in_disc p (ps ! (cells ! k)) (rs ! (cells ! k)))"

text \<open>
  The state of \<open>sim1\<close> once the pairs in \<open>D\<close> have been examined: every neighbour set and
  the edge list hold exactly the overlapping pairs among them.
\<close>

definition sim1_inv ::
  "point list \<Rightarrow> real list \<Rightarrow> nat \<Rightarrow> (nat \<times> nat) set \<Rightarrow> nat list list \<times> nat list list \<Rightarrow> bool" where
  "sim1_inv ps rs n D st =
     (case st of (nb, S1) \<Rightarrow>
        length nb = n
      \<and> (\<forall>a < n. distinct (nb ! a)
                 \<and> set (nb ! a) = {b. ((a, b) \<in> D \<or> (b, a) \<in> D) \<and> overlap ps rs a b})
      \<and> set S1 = {[a, b] | a b. (a, b) \<in> D \<and> overlap ps rs a b})"

text \<open>The exception-free reading of the three stages of \<open>CechComplex.verify\<close>.\<close>

definition fallback_p :: "point list \<Rightarrow> real list \<Rightarrow> nat list \<Rightarrow> point option" where
  "fallback_p ps rs cells =
     (let i = length cells - 1 in
      firstP (\<lambda>j. firstP (\<lambda>p. if in_others ps rs cells i j p then Some p else None)
                     (cpts ps rs (cells ! i) (cells ! j))) [0..<i])"

definition shortcut_p ::
  "point list \<Rightarrow> real list \<Rightarrow> (nat set \<rightharpoonup> point) \<Rightarrow> nat list \<Rightarrow> point option" where
  "shortcut_p ps rs memo cells =
     (let new_cand = last cells; pre_set = butlast cells in
      if length pre_set = 2 then
        firstP (\<lambda>p. if in_disc p (ps ! new_cand) (rs ! new_cand) then Some p else None)
          (cpts ps rs (cells ! 0) (cells ! 1))
      else if length pre_set > 2 then
        (case memo (set pre_set) of
           Some w \<Rightarrow> if in_disc w (ps ! new_cand) (rs ! new_cand) then Some w else None
         | None \<Rightarrow> None)
      else None)"

definition verify_p ::
  "point list \<Rightarrow> real list \<Rightarrow> (nat set \<rightharpoonup> point) \<Rightarrow> nat list \<Rightarrow> point option" where
  "verify_p ps rs memo cells =
     (let sm = smallest_of rs cells in
      if contains_all ps rs cells sm then Some (ps ! sm)
      else case shortcut_p ps rs memo cells of
             Some p \<Rightarrow> Some p
           | None \<Rightarrow> fallback_p ps rs cells)"

text \<open>The candidates \<open>CechComplex.getCandidates\<close> draws from a level.\<close>

definition cands_of :: "nat list list \<Rightarrow> nat list list \<Rightarrow> nat list list" where
  "cands_of nb level =
     concat (map (\<lambda>s. map (\<lambda>c. s @ [c])
                        (filter (\<lambda>c. c \<notin> set s \<and> (\<forall>i \<in> set s. c \<in> set (nb ! i))) (nb ! hd s)))
                 level)"

text \<open>Well-formedness of the neighbour table, of a simplex of dimension \<open>k\<close>, of the levels,
  and of the memo table with respect to the levels of dimension two and more.\<close>

definition nb_ok :: "nat \<Rightarrow> nat list list \<Rightarrow> bool" where
  "nb_ok n nb =
     (length nb = n
      \<and> (\<forall>a < n. distinct (nb ! a) \<and> a \<notin> set (nb ! a) \<and> (\<forall>b \<in> set (nb ! a). b < n)))"

definition simplex_ok :: "nat \<Rightarrow> nat \<Rightarrow> nat list \<Rightarrow> bool" where
  "simplex_ok n k s = (length s = k + 1 \<and> distinct s \<and> (\<forall>c \<in> set s. c < n))"

definition levels_ok :: "nat \<Rightarrow> nat list list list \<Rightarrow> bool" where
  "levels_ok n S = (\<forall>j < length S. \<forall>s \<in> set (S ! j). simplex_ok n j s)"

definition memo_has :: "(nat set \<rightharpoonup> point) \<Rightarrow> nat list list list \<Rightarrow> bool" where
  "memo_has memo S = (\<forall>j. 2 \<le> j \<and> j < length S \<longrightarrow> (\<forall>s \<in> set (S ! j). memo (set s) \<noteq> None))"

text \<open>The exception-free reading of the body of the loop of \<open>CechComplex._simk\<close>.\<close>

definition simk_step_p ::
  "point list \<Rightarrow> real list
     \<Rightarrow> nat list list \<times> (nat set \<rightharpoonup> point) \<times> (nat set \<rightharpoonup> bool) \<Rightarrow> nat list
     \<Rightarrow> nat list list \<times> (nat set \<rightharpoonup> point) \<times> (nat set \<rightharpoonup> bool)" where
  "simk_step_p ps rs st cand =
     (case st of (Sk, memo, verified) \<Rightarrow>
      if verified (set cand) \<noteq> None then (Sk, memo, verified)
      else case verify_p ps rs memo cand of
             Some w \<Rightarrow> (Sk @ [cand], memo(set cand \<mapsto> w), verified(set cand \<mapsto> True))
           | None \<Rightarrow> (Sk, memo, verified(set cand \<mapsto> False)))"

text \<open>The exception-free reading of \<open>CechComplexLE.verify\<close> and \<open>CechComplexLE.getCandidates\<close>.\<close>

definition verify_LE_p :: "point list \<Rightarrow> real list \<Rightarrow> nat list \<Rightarrow> bool" where
  "verify_LE_p ps rs cells =
     (contains_all ps rs cells (smallest_of rs cells)
      \<or> (\<exists>l \<in> set (combinations cells 2). \<exists>p \<in> set (cpts ps rs (l ! 0) (l ! 1)).
            \<forall>c \<in> set cells. c = l ! 0 \<or> c = l ! 1 \<or> in_disc p (ps ! c) (rs ! c)))"

definition cands_LE :: "nat list list \<Rightarrow> nat \<Rightarrow> nat \<Rightarrow> nat list list" where
  "cands_LE nb n k = concat (map (\<lambda>i. map (\<lambda>cand. i # cand) (combinations (nb ! i) k)) [0..<n])"

text \<open>Point \<open>p\<close> lies on the circle of centre \<open>c\<close> and radius \<open>r\<close>.\<close>

definition on_circle :: "point \<Rightarrow> point \<Rightarrow> real \<Rightarrow> bool" where
  "on_circle p c r = ((fst c - fst p)\<^sup>2 + (snd c - snd p)\<^sup>2 = r\<^sup>2)"

text \<open>The least of finitely many real functions (and of the constant 1).\<close>

fun min_margin :: "(real \<Rightarrow> real) list \<Rightarrow> real \<Rightarrow> real" where
  "min_margin [] t = 1"
| "min_margin (f # fs) t = min (f t) (min_margin fs t)"

text \<open>
  The specification of the complex: the closed discs of the balls of \<open>T\<close> share a point;
  the simplices of dimension \<open>k\<close> are the sets of \<open>k + 1\<close> balls that do. A memo table is
  valid when every witness it holds lies in every disc of its key.
\<close>

definition common_point :: "point list \<Rightarrow> real list \<Rightarrow> nat set \<Rightarrow> bool" where
  "common_point ps rs T = (\<exists>p. \<forall>c \<in> T. in_disc p (ps ! c) (rs ! c))"

definition cech_level :: "point list \<Rightarrow> real list \<Rightarrow> nat \<Rightarrow> nat set set" where
  "cech_level ps rs k = {T. T \<subseteq> {..<length ps} \<and> card T = k + 1 \<and> common_point ps rs T}"

definition memo_valid :: "point list \<Rightarrow> real list \<Rightarrow> (nat set \<rightharpoonup> point) \<Rightarrow> bool" where
  "memo_valid ps rs memo = (\<forall>T p. memo T = Some p \<longrightarrow> (\<forall>c \<in> T. in_disc p (ps ! c) (rs ! c)))"

text \<open>The neighbour table holds, for every ball, exactly the other balls that overlap it.\<close>

definition nb_sem :: "point list \<Rightarrow> real list \<Rightarrow> nat list list \<Rightarrow> bool" where
  "nb_sem ps rs nb =
     (length nb = length ps
      \<and> (\<forall>a < length ps. distinct (nb ! a)
            \<and> set (nb ! a) = {b. b < length ps \<and> b \<noteq> a \<and> overlap ps rs a b}))"

text \<open>
  What a complex returned for \<open>maxK\<close> must be: level \<open>k\<close> holds, as index sets, exactly the
  simplices of dimension \<open>k\<close>; levels 0 and 1 are present; every further level is
  non-empty and within the cutoff; and the level after the last is cut off or empty.
\<close>

definition level_spec :: "point list \<Rightarrow> real list \<Rightarrow> int option \<Rightarrow> nat list list list \<Rightarrow> bool" where
  "level_spec ps rs maxK S =
     (2 \<le> length S
      \<and> (\<forall>j < length S. set ` set (S ! j) = cech_level ps rs j)
      \<and> (\<forall>j. 2 \<le> j \<and> j < length S \<longrightarrow> \<not> cutoff maxK j \<and> cech_level ps rs j \<noteq> {})
      \<and> (cutoff maxK (length S) \<or> cech_level ps rs (length S) = {}))"

section \<open>Basic facts about the error monad and the geometric primitives\<close>

lemma bindE_Inl [simp]: "bindE (Inl e) f = Inl e"
  by (simp add: bindE_def)

lemma bindE_Inr [simp]: "bindE (Inr x) f = f x"
  by (simp add: bindE_def)

lemma getitem_in [simp]: "i < length xs \<Longrightarrow> getitem xs i = Inr (xs ! i)"
  by (simp add: getitem_def)

lemma getitem_out [simp]: "\<not> i < length xs \<Longrightarrow> getitem xs i = Inl IndexError"
  by (simp add: getitem_def)

lemma dist_cells_in:
  "i < length ps \<Longrightarrow> j < length ps \<Longrightarrow> dist_cells ps i j = Inr (cdist (ps ! i) (ps ! j))"
  by (simp add: dist_cells_def cdist_def split: prod.splits)

lemma isCellInsideCell_in:
  "i < length ps \<Longrightarrow> j < length ps \<Longrightarrow> i < length rs \<Longrightarrow> j < length rs \<Longrightarrow>
   isCellInsideCell ps rs i j = Inr (cdist (ps ! i) (ps ! j) \<le> \<bar>rs ! i - rs ! j\<bar>)"
  by (simp add: isCellInsideCell_def dist_cells_in)

lemma isPointInsideCell_in:
  "c < length ps \<Longrightarrow> c < length rs \<Longrightarrow>
   isPointInsideCell ps rs p c = Inr (in_disc p (ps ! c) (rs ! c))"
  by (simp add: isPointInsideCell_def in_disc_def split: prod.splits)

lemma cdist_nonneg [simp]: "0 \<le> cdist p q"
  by (simp add: cdist_def)

lemma cdist_sym: "cdist p q = cdist q p"
  by (simp add: cdist_def power2_commute)

lemma cdist_triangle: "cdist p r \<le> cdist p q + cdist q r"
proof -
  have "sqrt ((fst p - fst q + (fst q - fst r))\<^sup>2 + (snd p - snd q + (snd q - snd r))\<^sup>2)
      \<le> sqrt ((fst p - fst q)\<^sup>2 + (snd p - snd q)\<^sup>2) + sqrt ((fst q - fst r)\<^sup>2 + (snd q - snd r)\<^sup>2)"
    by (rule real_sqrt_sum_squares_triangle_ineq)
  then show ?thesis by (simp add: cdist_def)
qed

lemma in_disc_iff: "0 \<le> r \<Longrightarrow> in_disc p c r \<longleftrightarrow> cdist c p \<le> r"
proof -
  assume r: "0 \<le> r"
  have "in_disc p c r \<longleftrightarrow> (cdist c p)\<^sup>2 \<le> r\<^sup>2"
    by (simp add: in_disc_def cdist_def)
  also have "\<dots> \<longleftrightarrow> cdist c p \<le> r"
    using r by (simp add: power2_le_iff_abs_le)
  finally show ?thesis .
qed

lemma gi_sq_le:
  fixes d r0 r1 :: real
  assumes d: "0 < d" and up: "d \<le> r0 + r1" and lo: "\<bar>r0 - r1\<bar> \<le> d"
  shows "((r0\<^sup>2 - r1\<^sup>2 + d\<^sup>2) / (2 * d))\<^sup>2 \<le> r0\<^sup>2"
proof -
  let ?a = "(r0\<^sup>2 - r1\<^sup>2 + d\<^sup>2) / (2 * d)"
  have r0: "0 \<le> r0" and r1: "0 \<le> r1" using up lo by linarith+
  have "(d - r0)\<^sup>2 \<le> r1\<^sup>2"
    using up lo r1 by (intro power2_le_iff_abs_le[THEN iffD2]) linarith+
  then have "r0\<^sup>2 - r1\<^sup>2 + d\<^sup>2 \<le> r0 * (2 * d)"
    by (simp add: power2_eq_square algebra_simps)
  then have a_le: "?a \<le> r0"
    using d by (simp add: pos_divide_le_eq)
  have "r1\<^sup>2 \<le> (d + r0)\<^sup>2"
    using up lo r0 d by (intro power2_le_iff_abs_le[THEN iffD2]) linarith+
  then have "- r0 * (2 * d) \<le> r0\<^sup>2 - r1\<^sup>2 + d\<^sup>2"
    by (simp add: power2_eq_square algebra_simps)
  then have a_ge: "- r0 \<le> ?a"
    using d by (simp add: pos_le_divide_eq)
  show ?thesis
    using a_le a_ge r0 by (intro power2_le_iff_abs_le[THEN iffD2]) linarith+
qed

lemma get_intersections_eq:
  "get_intersections x0 y0 r0 x1 y1 r1 = Inr (gi_points x0 y0 r0 x1 y1 r1)"
proof -
  define d where "d = sqrt ((x1 - x0)\<^sup>2 + (y1 - y0)\<^sup>2)"
  have d0: "0 \<le> d" by (simp add: d_def)
  show ?thesis
  proof (cases "d > r0 + r1 \<or> d < \<bar>r0 - r1\<bar> \<or> d = 0")
    case True
    then show ?thesis
      unfolding get_intersections_def gi_points_def Let_def d_def[symmetric]
      by auto
  next
    case False
    then have "0 < d" "d \<le> r0 + r1" "\<bar>r0 - r1\<bar> \<le> d" using d0 by auto
    from gi_sq_le[OF this] False show ?thesis
      unfolding get_intersections_def gi_points_def Let_def d_def[symmetric]
      by auto
  qed
qed

section \<open>The disc-containment primitive\<close>

text \<open>
  Claim C6, as amended. For balls \<open>i\<close>, \<open>j\<close> in range, \<open>isCellInsideCell i j\<close> returns
  true iff the distance of the centres is at most the absolute difference of the radii.
  When \<open>radius i \<le> radius j\<close> this is \<open>distance \<le> radius j - radius i\<close>, and then
  every point of disc \<open>i\<close> lies in disc \<open>j\<close>; when \<open>radius j < radius i\<close> the test is
  not false but true iff \<open>distance \<le> radius i - radius j\<close>.
\<close>

theorem isCellInsideCell_abs:
  assumes "i < length ps" "j < length ps" "length rs = length ps" "0 \<le> rs ! i"
  shows "isCellInsideCell ps rs i j = Inr (cdist (ps ! i) (ps ! j) \<le> \<bar>rs ! i - rs ! j\<bar>)
       \<and> (rs ! i \<le> rs ! j \<longrightarrow>
            (isCellInsideCell ps rs i j = Inr True \<longleftrightarrow> cdist (ps ! i) (ps ! j) \<le> rs ! j - rs ! i)
          \<and> (isCellInsideCell ps rs i j = Inr True \<longrightarrow>
               (\<forall>p. in_disc p (ps ! i) (rs ! i) \<longrightarrow> in_disc p (ps ! j) (rs ! j))))
       \<and> (rs ! j < rs ! i \<longrightarrow>
            (isCellInsideCell ps rs i j = Inr True \<longleftrightarrow> cdist (ps ! i) (ps ! j) \<le> rs ! i - rs ! j))"
proof -
  have eq: "isCellInsideCell ps rs i j = Inr (cdist (ps ! i) (ps ! j) \<le> \<bar>rs ! i - rs ! j\<bar>)"
    using assms by (simp add: isCellInsideCell_in)
  have sub: "in_disc p (ps ! j) (rs ! j)"
    if le: "rs ! i \<le> rs ! j" and d: "cdist (ps ! i) (ps ! j) \<le> rs ! j - rs ! i"
      and p: "in_disc p (ps ! i) (rs ! i)" for p
  proof -
    have "cdist (ps ! i) p \<le> rs ! i"
      using p assms(4) by (simp add: in_disc_iff)
    moreover have "cdist (ps ! j) p \<le> cdist (ps ! j) (ps ! i) + cdist (ps ! i) p"
      by (rule cdist_triangle)
    ultimately have "cdist (ps ! j) p \<le> rs ! j"
      using d by (simp add: cdist_sym)
    moreover have "0 \<le> rs ! j" using le assms(4) by simp
    ultimately show ?thesis by (simp add: in_disc_iff)
  qed
  show ?thesis
    using eq sub by auto
qed

theorem isCellInsideCell_abs_witness:
  "isCellInsideCell [(0, 0), (1, 0)] [1, 3] 0 1 = Inr True
   \<and> in_disc (1, 0) ([(0, 0), (1, 0)] ! 1) ([1, 3] ! 1)"
proof -
  have p: "in_disc (1, 0) ([(0, 0), (1, 0)] ! 0) (([1, 3] :: real list) ! 0)"
    by (simp add: in_disc_def)
  have c: "cdist ([(0, 0), (1, 0)] ! 0) ([(0, 0), (1, 0)] ! 1) = 1"
    by (simp add: cdist_def)
  show ?thesis
    using isCellInsideCell_abs [of 0 "[(0, 0), (1, 0)]" 1 "[1, 3]"] p c by simp
qed

text \<open>
  Claim C6 as stated fails: with both centres at the origin, \<open>radius i = 2\<close> and
  \<open>radius j = 1\<close>, the test returns true although \<open>distance \<le> radius j - radius i\<close> is false.
\<close>

theorem isCellInsideCell_counterexample:
  "isCellInsideCell [(0, 0), (0, 0)] [2, 1] 0 1 = Inr True
   \<and> \<not> (sqrt ((0 - 0)\<^sup>2 + (0 - 0)\<^sup>2) \<le> ([2, 1] ! 1 :: real) - [2, 1] ! 0)"
  by (simp add: isCellInsideCell_def dist_cells_def)

section \<open>The circle-intersection primitive\<close>



section \<open>Loops without exceptions\<close>

lemma mapE_Inr: "(\<And>x. x \<in> set xs \<Longrightarrow> f x = Inr (g x)) \<Longrightarrow> mapE f xs = Inr (map g xs)"
  by (induction xs) simp_all

lemma allE_Inr:
  "(\<And>x. x \<in> set xs \<Longrightarrow> P x = Inr (Q x)) \<Longrightarrow> allE P xs = Inr (\<forall>x \<in> set xs. Q x)"
  by (induction xs) simp_all

lemma foldE_Inr:
  "(\<And>s x. x \<in> set xs \<Longrightarrow> f s x = Inr (g s x)) \<Longrightarrow> foldE f xs s = Inr (foldl g s xs)"
  by (induction xs arbitrary: s) simp_all

lemma first_some_Inr:
  "(\<And>x. x \<in> set xs \<Longrightarrow> f x = Inr (g x)) \<Longrightarrow> first_some f xs = Inr (firstP g xs)"
  by (induction xs) (simp_all split: option.splits)

lemma firstP_None: "firstP g xs = None \<longleftrightarrow> (\<forall>x \<in> set xs. g x = None)"
  by (induction xs) (simp_all split: option.splits)

lemma firstP_Some: "firstP g xs = Some y \<Longrightarrow> \<exists>x \<in> set xs. g x = Some y"
  by (induction xs) (auto split: option.splits)

lemma foldE_inv:
  assumes "I s" and "\<And>s x. x \<in> set xs \<Longrightarrow> I s \<Longrightarrow> \<exists>s'. f s x = Inr s' \<and> I s'"
  shows "\<exists>s'. foldE f xs s = Inr s' \<and> I s'"
  using assms
proof (induction xs arbitrary: s)
  case Nil
  then show ?case by simp
next
  case (Cons x xs)
  from Cons.prems obtain s1 where s1: "f s x = Inr s1" "I s1" by (meson list.set_intros(1))
  have "\<exists>s'. foldE f xs s1 = Inr s' \<and> I s'"
    by (rule Cons.IH[OF s1(2)]) (simp add: Cons.prems(2))
  then show ?case using s1 by simp
qed

lemma foldE_inv_prefix:
  assumes "I pre s"
    and "\<And>s x pre' suf. pre @ xs = pre' @ x # suf \<Longrightarrow> length pre \<le> length pre' \<Longrightarrow> I pre' s
            \<Longrightarrow> \<exists>s'. f s x = Inr s' \<and> I (pre' @ [x]) s'"
  shows "\<exists>s'. foldE f xs s = Inr s' \<and> I (pre @ xs) s'"
  using assms
proof (induction xs arbitrary: s pre)
  case Nil
  then show ?case by simp
next
  case (Cons x xs)
  from Cons.prems(2)[of pre x xs s] Cons.prems(1)
  obtain s1 where s1: "f s x = Inr s1" "I (pre @ [x]) s1" by auto
  have "\<exists>s'. foldE f xs s1 = Inr s' \<and> I ((pre @ [x]) @ xs) s'"
  proof (rule Cons.IH[OF s1(2)])
    fix s' y pre' suf
    assume "(pre @ [x]) @ xs = pre' @ y # suf" "length (pre @ [x]) \<le> length pre'" "I pre' s'"
    then show "\<exists>s''. f s' y = Inr s'' \<and> I (pre' @ [y]) s''"
      using Cons.prems(2)[of pre' y suf s'] by simp
  qed
  then show ?case using s1 by simp
qed

section \<open>The parts of verification, for balls in range\<close>

lemma intersects_in:
  "i < length ps \<Longrightarrow> j < length ps \<Longrightarrow> i < length rs \<Longrightarrow> j < length rs \<Longrightarrow>
   intersects ps rs i j = Inr (overlap ps rs i j)"
  by (simp add: intersects_def dist_cells_in overlap_def split: prod.splits)

lemma intersection_in:
  "i < length ps \<Longrightarrow> j < length ps \<Longrightarrow> i < length rs \<Longrightarrow> j < length rs \<Longrightarrow>
   intersection ps rs i j = Inr (cpts ps rs i j)"
  by (simp add: intersection_def cpts_def get_intersections_eq split: prod.splits)

lemma overlap_sym: "overlap ps rs i j = overlap ps rs j i"
  by (simp add: overlap_def cdist_sym add.commute)

lemma find_smallest_in:
  assumes "cells \<noteq> []" "\<forall>c \<in> set cells. c < length rs"
  shows "find_smallest rs cells = Inr (smallest_of rs cells)"
proof -
  have step: "foldE (\<lambda>smallest c.
        bindE (getitem rs c) (\<lambda>rc.
        bindE (getitem rs smallest) (\<lambda>rsm.
        Inr (if rc < rsm then c else smallest)))) xs sm
      = Inr (foldl (\<lambda>sm c. if rs ! c < rs ! sm then c else sm) sm xs)"
    if "\<forall>c \<in> set xs. c < length rs" "sm < length rs" for xs sm
    using that by (induction xs arbitrary: sm) simp_all
  have "hd cells < length rs" using assms by (cases cells) simp_all
  then show ?thesis
    using assms step[of cells "hd cells"]
    by (cases cells) (simp_all add: find_smallest_def smallest_of_def)
qed

lemma foldl_smallest_mem:
  "foldl (\<lambda>sm c. if (rs :: real list) ! c < rs ! sm then c else sm) sm xs \<in> insert sm (set xs)"
  by (induction xs arbitrary: sm) (simp_all, fastforce)

lemma foldl_smallest_le:
  "rs ! (foldl (\<lambda>sm c. if (rs :: real list) ! c < rs ! sm then c else sm) sm xs) \<le> rs ! sm
   \<and> (\<forall>c \<in> set xs. rs ! (foldl (\<lambda>sm c. if rs ! c < rs ! sm then c else sm) sm xs) \<le> rs ! c)"
proof (induction xs arbitrary: sm)
  case Nil
  then show ?case by simp
next
  case (Cons x xs)
  show ?case
    using Cons.IH[of x] Cons.IH[of sm] by (auto simp: not_less)
qed

lemma smallest_of_mem: "cells \<noteq> [] \<Longrightarrow> smallest_of rs cells \<in> set cells"
  using foldl_smallest_mem[of rs "hd cells" cells] by (cases cells) (auto simp: smallest_of_def)

lemma smallest_of_le: "c \<in> set cells \<Longrightarrow> rs ! smallest_of rs cells \<le> rs ! c"
  using foldl_smallest_le[of rs "hd cells" cells] by (simp add: smallest_of_def)

lemma all_inside_in:
  assumes "\<forall>c \<in> set cells. c < length ps \<and> c < length rs" "sm < length ps" "sm < length rs"
  shows "all_inside ps rs cells sm = Inr (contains_all ps rs cells sm)"
proof -
  have "foldE (\<lambda>inside c.
        if c = sm then Inr inside
        else bindE (isCellInsideCell ps rs c sm) (\<lambda>b.
             Inr (if b then inside else False))) xs acc
      = Inr (acc \<and> (\<forall>c \<in> set xs. c = sm \<or> cdist (ps ! c) (ps ! sm) \<le> \<bar>rs ! c - rs ! sm\<bar>))"
    if "\<forall>c \<in> set xs. c < length ps \<and> c < length rs" for xs acc
    using that assms(2,3)
    by (induction xs arbitrary: acc) (auto simp: isCellInsideCell_in)
  from this[of cells True] assms(1) show ?thesis
    by (simp add: all_inside_def contains_all_def)
qed

lemma set_enumerate_py: "set (enumerate_py xs) = {(k, xs ! k) | k. k < length xs}"
proof -
  have "\<exists>i. k = [0..<length xs] ! i \<and> xs ! k = xs ! i \<and> i < length xs"
    if "k < length xs" for k
    using that by (intro exI[of _ k]) simp
  then show ?thesis
    by (auto simp: enumerate_py_def set_zip)
qed

lemma point_in_others_in:
  assumes "\<forall>c \<in> set cells. c < length ps \<and> c < length rs"
  shows "point_in_others ps rs cells i j p
       = Inr (if in_others ps rs cells i j p then Some p else None)"
proof -
  have "allE (\<lambda>(k, cellid).
              if k = i \<or> k = j then Inr True
              else isPointInsideCell ps rs p cellid) (enumerate_py cells)
      = Inr (\<forall>x \<in> set (enumerate_py cells).
               (\<lambda>(k, cellid). k = i \<or> k = j \<or> in_disc p (ps ! cellid) (rs ! cellid)) x)"
  proof (rule allE_Inr)
    fix x assume "x \<in> set (enumerate_py cells)"
    then obtain k where "x = (k, cells ! k)" "k < length cells"
      by (auto simp: set_enumerate_py)
    then show "(case x of (k, cellid) \<Rightarrow>
              if k = i \<or> k = j then Inr True
              else isPointInsideCell ps rs p cellid)
          = Inr (case x of (k, cellid) \<Rightarrow> k = i \<or> k = j \<or> in_disc p (ps ! cellid) (rs ! cellid))"
      using assms by (auto simp: isPointInsideCell_in)
  qed
  moreover have "(\<forall>x \<in> set (enumerate_py cells).
               (\<lambda>(k, cellid). k = i \<or> k = j \<or> in_disc p (ps ! cellid) (rs ! cellid)) x)
      \<longleftrightarrow> in_others ps rs cells i j p"
    by (auto simp: set_enumerate_py in_others_def)
  ultimately show ?thesis
    by (simp add: point_in_others_def)
qed

section \<open>The neighbour graph\<close>

lemma set_set_add [simp]: "set (set_add x xs) = insert x (set xs)"
  by (auto simp: set_add_def set_insort_key)

lemma distinct_set_add [simp]: "distinct xs \<Longrightarrow> distinct (set_add x xs)"
  by (simp add: set_add_def distinct_insort)

lemma sim1_step_inv:
  assumes inv: "sim1_inv ps rs n D st" and ij: "i < n" "j < n" "i \<noteq> j"
    and len: "n \<le> length ps" "n \<le> length rs"
  shows "\<exists>st'. sim1_step ps rs i st j = Inr st' \<and> sim1_inv ps rs n (insert (i, j) D) st'"
proof -
  obtain nb S1 where st: "st = (nb, S1)" by (cases st)
  from inv st have n: "length nb = n"
    and nbs: "\<And>a. a < n \<Longrightarrow> distinct (nb ! a)
                 \<and> set (nb ! a) = {b. ((a, b) \<in> D \<or> (b, a) \<in> D) \<and> overlap ps rs a b}"
    and s1: "set S1 = {[a, b] | a b. (a, b) \<in> D \<and> overlap ps rs a b}"
    by (auto simp: sim1_inv_def)
  have isect: "intersects ps rs i j = Inr (overlap ps rs i j)"
    using ij len by (intro intersects_in) linarith+
  show ?thesis
  proof (cases "overlap ps rs i j")
    case False
    then have nov: "\<not> overlap ps rs j i" by (simp add: overlap_sym)
    have "sim1_step ps rs i st j = Inr (nb, S1)"
      using False isect st by (simp add: sim1_step_def)
    moreover have "sim1_inv ps rs n (insert (i, j) D) (nb, S1)"
      using n nbs s1 False nov by (auto simp: sim1_inv_def)
    ultimately show ?thesis by blast
  next
    case True
    then have ov: "overlap ps rs j i" by (simp add: overlap_sym)
    define nb' where "nb' = nb[i := set_add j (nb ! i), j := set_add i (nb ! j)]"
    have run: "sim1_step ps rs i st j = Inr (nb', S1 @ [[i, j]])"
      using True isect st ij n by (simp add: sim1_step_def nb'_def Let_def)
    have l: "length nb' = n" by (simp add: nb'_def n)
    have at: "nb' ! a = (if a = j then set_add i (nb ! j) else if a = i then set_add j (nb ! i) else nb ! a)"
      if "a < n" for a
      using that n ij by (simp add: nb'_def nth_list_update)
    have sets: "distinct (nb' ! a)
        \<and> set (nb' ! a) = {b. ((a, b) \<in> insert (i, j) D \<or> (b, a) \<in> insert (i, j) D) \<and> overlap ps rs a b}"
      if a: "a < n" for a
    proof (cases "a = j")
      case True
      then show ?thesis using at[OF a] nbs[OF a] ij ov by auto
    next
      case aj: False
      show ?thesis
      proof (cases "a = i")
        case True
        then show ?thesis using at[OF a] nbs[OF a] ij \<open>overlap ps rs i j\<close> by auto
      next
        case False
        then show ?thesis using at[OF a] nbs[OF a] aj by auto
      qed
    qed
    have "set (S1 @ [[i, j]]) = {[a, b] | a b. (a, b) \<in> insert (i, j) D \<and> overlap ps rs a b}"
      using s1 True by auto
    then have "sim1_inv ps rs n (insert (i, j) D) (nb', S1 @ [[i, j]])"
      using l sets by (simp add: sim1_inv_def)
    then show ?thesis using run by blast
  qed
qed

lemma sim1_inner_inv:
  assumes inv: "sim1_inv ps rs n D st" and i: "i < n"
    and len: "n \<le> length ps" "n \<le> length rs"
  shows "\<exists>st'. foldE (sim1_step ps rs i) [i + 1..<n] st = Inr st'
            \<and> sim1_inv ps rs n (D \<union> {(i, j) | j. i < j \<and> j < n}) st'"
proof -
  have "\<exists>st'. foldE (sim1_step ps rs i) [i + 1..<n] st = Inr st'
      \<and> sim1_inv ps rs n (D \<union> (\<lambda>j. (i, j)) ` set ([] @ [i + 1..<n])) st'"
  proof (rule foldE_inv_prefix[where I = "\<lambda>pre. sim1_inv ps rs n (D \<union> (\<lambda>j. (i, j)) ` set pre)"])
    show "sim1_inv ps rs n (D \<union> (\<lambda>j. (i, j)) ` set []) st" using inv by simp
  next
    fix s x pre' suf
    assume eq: "[] @ [i + 1..<n] = pre' @ x # suf"
      and I: "sim1_inv ps rs n (D \<union> (\<lambda>j. (i, j)) ` set pre') s"
    have "x \<in> set [i + 1..<n]" using eq by (metis append_Nil in_set_conv_decomp)
    then have x: "x < n" "i \<noteq> x" by auto
    from sim1_step_inv[OF I i x len]
    show "\<exists>s'. sim1_step ps rs i s x = Inr s'
        \<and> sim1_inv ps rs n (D \<union> (\<lambda>j. (i, j)) ` set (pre' @ [x])) s'"
      by simp
  qed
  moreover have "(\<lambda>j. (i, j)) ` set ([] @ [i + 1..<n]) = {(i, j) | j. i < j \<and> j < n}"
    by auto
  ultimately show ?thesis by simp
qed

lemma sim1_total:
  assumes len: "n \<le> length ps" "n \<le> length rs"
  shows "\<exists>nb S1. sim1 ps rs n = Inr (nb, S1) \<and> sim1_inv ps rs n {(i, j). i < j \<and> j < n} (nb, S1)"
proof -
  let ?I = "\<lambda>pre. sim1_inv ps rs n {(i, j). i \<in> set pre \<and> i < j \<and> j < n}"
  have "\<exists>st'. foldE (\<lambda>st i. foldE (sim1_step ps rs i) [i + 1..<n] st) [0..<n] (replicate n [], []) = Inr st'
      \<and> ?I ([] @ [0..<n]) st'"
  proof (rule foldE_inv_prefix[where I = ?I])
    show "?I [] (replicate n [], [])" by (simp add: sim1_inv_def)
  next
    fix s x pre' suf
    assume eq: "[] @ [0..<n] = pre' @ x # suf" and I: "?I pre' s"
    have "x \<in> set [0..<n]" using eq by (metis append_Nil in_set_conv_decomp)
    then have x: "x < n" by simp
    have "{(i, j). i \<in> set pre' \<and> i < j \<and> j < n} \<union> {(x, j) | j. x < j \<and> j < n}
        = {(i, j). i \<in> set (pre' @ [x]) \<and> i < j \<and> j < n}"
      by auto
    with sim1_inner_inv[OF I x len]
    show "\<exists>s'. foldE (sim1_step ps rs x) [x + 1..<n] s = Inr s' \<and> ?I (pre' @ [x]) s'"
      by simp
  qed
  moreover have "{(i, j). i \<in> set ([] @ [0..<n]) \<and> i < j \<and> j < n} = {(i, j). i < j \<and> j < n}"
    by auto
  ultimately show ?thesis by (simp add: sim1_def)
qed

lemma sim1_inv_final:
  assumes "sim1_inv ps rs n {(i, j). i < j \<and> j < n} (nb, S1)"
  shows "length nb = n"
    and "a < n \<Longrightarrow> distinct (nb ! a)"
    and "a < n \<Longrightarrow> set (nb ! a) = {b. b < n \<and> b \<noteq> a \<and> overlap ps rs a b}"
    and "set S1 = {[a, b] | a b. a < b \<and> b < n \<and> overlap ps rs a b}"
  using assms by (auto simp: sim1_inv_def)

section \<open>The witness-caching verifier without exceptions\<close>

lemma verify_fallback_in:
  assumes "\<forall>c \<in> set cells. c < length ps \<and> c < length rs"
  shows "verify_fallback ps rs cells = Inr (fallback_p ps rs cells)"
proof -
  let ?i = "length cells - 1"
  have "first_some (\<lambda>j.
        bindE (getitem cells ?i) (\<lambda>ci.
        bindE (getitem cells j) (\<lambda>cj.
        bindE (intersection ps rs ci cj) (\<lambda>x.
        first_some (point_in_others ps rs cells ?i j) x)))) [0..<?i]
      = Inr (firstP (\<lambda>j. firstP (\<lambda>p. if in_others ps rs cells ?i j p then Some p else None)
                     (cpts ps rs (cells ! ?i) (cells ! j))) [0..<?i])"
  proof (rule first_some_Inr)
    fix j assume "j \<in> set [0..<?i]"
    then have j: "j < length cells" and i: "?i < length cells" by auto
    then have cj: "cells ! j \<in> set cells" and ci: "cells ! ?i \<in> set cells" by simp_all
    have "first_some (point_in_others ps rs cells ?i j) (cpts ps rs (cells ! ?i) (cells ! j))
        = Inr (firstP (\<lambda>p. if in_others ps rs cells ?i j p then Some p else None)
                 (cpts ps rs (cells ! ?i) (cells ! j)))"
      by (rule first_some_Inr) (simp add: point_in_others_in[OF assms])
    then show "bindE (getitem cells ?i) (\<lambda>ci.
        bindE (getitem cells j) (\<lambda>cj.
        bindE (intersection ps rs ci cj) (\<lambda>x.
        first_some (point_in_others ps rs cells ?i j) x)))
      = Inr (firstP (\<lambda>p. if in_others ps rs cells ?i j p then Some p else None)
                     (cpts ps rs (cells ! ?i) (cells ! j)))"
      using i j assms ci cj by (simp add: intersection_in)
  qed
  then show ?thesis
    by (simp add: verify_fallback_def fallback_p_def Let_def)
qed

lemma verify_reuse_in:
  assumes rng: "\<forall>c \<in> set cells. c < length ps \<and> c < length rs"
    and ne: "cells \<noteq> []"
    and memo: "length cells > 3 \<Longrightarrow> memo (set (butlast cells)) \<noteq> None"
  shows "verify_reuse ps rs memo cells = Inr (shortcut_p ps rs memo cells)"
proof -
  have lastr: "last cells < length ps" "last cells < length rs"
    using rng ne last_in_set by blast+
  show ?thesis
  proof (cases "length (butlast cells) = 2")
    case True
    then have l3: "length cells = 3" by simp
    then have c01: "cells ! 0 \<in> set cells" "cells ! 1 \<in> set cells" by simp_all
    have "first_some (\<lambda>p. bindE (isPointInsideCell ps rs p (last cells)) (\<lambda>b.
                               Inr (if b then Some p else None))) (cpts ps rs (cells ! 0) (cells ! 1))
        = Inr (firstP (\<lambda>p. if in_disc p (ps ! last cells) (rs ! last cells) then Some p else None)
                 (cpts ps rs (cells ! 0) (cells ! 1)))"
      by (rule first_some_Inr) (simp add: isPointInsideCell_in[OF lastr])
    then show ?thesis
      using True l3 c01 rng ne by (simp add: verify_reuse_def shortcut_p_def intersection_in Let_def)
  next
    case n2: False
    show ?thesis
    proof (cases "length (butlast cells) > 2")
      case True
      then have "length cells > 3" by simp
      from memo[OF this] obtain w where w: "memo (set (butlast cells)) = Some w" by auto
      show ?thesis
        using n2 True w lastr ne
        by (simp add: verify_reuse_def shortcut_p_def lookup_def isPointInsideCell_in Let_def)
    next
      case False
      then show ?thesis using n2 ne by (simp add: verify_reuse_def shortcut_p_def Let_def)
    qed
  qed
qed

lemma CechComplex_verify_in:
  assumes rng: "\<forall>c \<in> set cells. c < length ps \<and> c < length rs"
    and ne: "cells \<noteq> []"
    and memo: "length cells > 3 \<Longrightarrow> memo (set (butlast cells)) \<noteq> None"
  shows "CechComplex_verify ps rs memo cells = Inr (verify_p ps rs memo cells)"
proof -
  let ?sm = "smallest_of rs cells"
  have sm: "?sm \<in> set cells" by (rule smallest_of_mem[OF ne])
  then have smr: "?sm < length ps" "?sm < length rs" using rng by auto
  have fs: "find_smallest rs cells = Inr ?sm"
    using rng ne by (intro find_smallest_in) auto
  have ai: "all_inside ps rs cells ?sm = Inr (contains_all ps rs cells ?sm)"
    by (rule all_inside_in[OF rng smr])
  have sc: "verify_reuse ps rs memo cells = Inr (shortcut_p ps rs memo cells)"
    by (rule verify_reuse_in[where memo = memo, OF rng ne]) (rule memo)
  show ?thesis
    using fs ai smr sc verify_fallback_in[OF rng]
    by (simp add: CechComplex_verify_def verify_p_def Let_def split: option.splits)
qed

section \<open>Candidates of the witness-caching strategy\<close>

lemma set_intersection_Cons:
  "set_intersection (xs # rest) = Inr (filter (\<lambda>c. \<forall>ys \<in> set rest. c \<in> set ys) xs)"
  by (simp add: set_intersection_def)

lemma CechComplex_getCandidates_in:
  assumes k: "0 < k" "k - 1 < length S"
    and nb: "length nb = n"
    and lv: "\<forall>s \<in> set (S ! (k - 1)). s \<noteq> [] \<and> (\<forall>c \<in> set s. c < n)"
  shows "CechComplex_getCandidates nb S k = Inr (cands_of nb (S ! (k - 1)))"
proof -
  have one: "bindE (mapE (getitem nb) s) (\<lambda>nbs.
              bindE (set_intersection nbs) (\<lambda>common.
              Inr (map (\<lambda>c. s @ [c]) (set_difference common s))))
      = Inr (map (\<lambda>c. s @ [c])
               (filter (\<lambda>c. c \<notin> set s \<and> (\<forall>i \<in> set s. c \<in> set (nb ! i))) (nb ! hd s)))"
    if s: "s \<in> set (S ! (k - 1))" for s
  proof -
    from lv s obtain a t where st: "s = a # t" and rng: "\<forall>c \<in> set s. c < n"
      by (cases s) auto
    have m: "mapE (getitem nb) s = Inr (map ((!) nb) s)"
      using rng nb by (intro mapE_Inr) simp
    have f: "filter (\<lambda>c. c \<notin> set s) (filter (\<lambda>c. \<forall>ys \<in> set (map ((!) nb) t). c \<in> set ys) (nb ! a))
        = filter (\<lambda>c. c \<notin> set s \<and> (\<forall>i \<in> set s. c \<in> set (nb ! i))) (nb ! a)"
      unfolding filter_filter st by (rule filter_cong) auto
    show ?thesis
      using m f by (simp add: st set_intersection_Cons set_difference_def)
  qed
  have "mapE (\<lambda>s.
              bindE (mapE (getitem nb) s) (\<lambda>nbs.
              bindE (set_intersection nbs) (\<lambda>common.
              Inr (map (\<lambda>c. s @ [c]) (set_difference common s))))) (S ! (k - 1))
      = Inr (map (\<lambda>s. map (\<lambda>c. s @ [c])
               (filter (\<lambda>c. c \<notin> set s \<and> (\<forall>i \<in> set s. c \<in> set (nb ! i))) (nb ! hd s))) (S ! (k - 1)))"
    by (rule mapE_Inr) (rule one)
  then show ?thesis
    using k by (simp add: CechComplex_getCandidates_def cands_of_def)
qed

lemma cands_of_iff:
  assumes "\<forall>s \<in> set level. s \<noteq> []"
  shows "cand \<in> set (cands_of nb level) \<longleftrightarrow>
     (\<exists>s c. cand = s @ [c] \<and> s \<in> set level \<and> c \<notin> set s \<and> (\<forall>i \<in> set s. c \<in> set (nb ! i)))"
proof
  assume "cand \<in> set (cands_of nb level)"
  then show "\<exists>s c. cand = s @ [c] \<and> s \<in> set level \<and> c \<notin> set s \<and> (\<forall>i \<in> set s. c \<in> set (nb ! i))"
    by (auto simp: cands_of_def)
next
  assume "\<exists>s c. cand = s @ [c] \<and> s \<in> set level \<and> c \<notin> set s \<and> (\<forall>i \<in> set s. c \<in> set (nb ! i))"
  then obtain s c where sc: "cand = s @ [c]" "s \<in> set level" "c \<notin> set s"
    "\<forall>i \<in> set s. c \<in> set (nb ! i)" by blast
  then have "s \<noteq> []" using assms by blast
  then have "hd s \<in> set s" by simp
  then have "c \<in> set (nb ! hd s)" using sc(4) by blast
  then show "cand \<in> set (cands_of nb level)"
    using sc by (auto simp: cands_of_def)
qed

section \<open>One level of the witness-caching strategy\<close>

lemma foldE_Inr_inv:
  assumes "I s" and "\<And>s x. x \<in> set xs \<Longrightarrow> I s \<Longrightarrow> f s x = Inr (g s x) \<and> I (g s x)"
  shows "foldE f xs s = Inr (foldl g s xs) \<and> I (foldl g s xs)"
  using assms by (induction xs arbitrary: s) simp_all

lemma foldl_inv:
  assumes "I s" and "\<And>s x. x \<in> set xs \<Longrightarrow> I s \<Longrightarrow> I (g s x)"
  shows "I (foldl g s xs)"
  using assms by (induction xs arbitrary: s) simp_all

lemma simk_step_p_dom:
  "simk_step_p ps rs (Sk, m, v) cand = (Sk', m', v') \<Longrightarrow> dom m \<subseteq> dom m'"
  by (auto simp: simk_step_p_def split: if_splits option.splits)

lemma cands_of_simplex_ok:
  assumes nb: "nb_ok n nb" and lv: "\<forall>s \<in> set level. simplex_ok n (k - 1) s" and k: "0 < k"
    and c: "cand \<in> set (cands_of nb level)"
  shows "simplex_ok n k cand \<and> butlast cand \<in> set level"
proof -
  have ne: "\<forall>s \<in> set level. s \<noteq> []" using lv by (auto simp: simplex_ok_def)
  from c obtain s x where sx: "cand = s @ [x]" "s \<in> set level" "x \<notin> set s"
    "\<forall>i \<in> set s. x \<in> set (nb ! i)"
    unfolding cands_of_iff[OF ne] by blast
  have s: "simplex_ok n (k - 1) s" using lv sx(2) by blast
  then have "s \<noteq> []" by (auto simp: simplex_ok_def)
  then have "hd s \<in> set s" by simp
  then have "hd s < n" "x \<in> set (nb ! hd s)" using s sx(4) by (auto simp: simplex_ok_def)
  then have "x < n" using nb by (auto simp: nb_ok_def)
  then show ?thesis using s sx k by (auto simp: simplex_ok_def)
qed

lemma CechComplex_simk_level_in:
  assumes len: "n \<le> length ps" "n \<le> length rs"
    and nb: "nb_ok n nb"
    and k: "2 \<le> k" "length S = k"
    and lv: "\<forall>s \<in> set (S ! (k - 1)). simplex_ok n (k - 1) s"
    and memo: "3 \<le> k \<Longrightarrow> \<forall>s \<in> set (S ! (k - 1)). memo (set s) \<noteq> None"
  shows "CechComplex_simk_level ps rs nb S k memo ver
       = Inr (foldl (simk_step_p ps rs) ([], memo, ver) (cands_of nb (S ! (k - 1))))"
proof -
  let ?cands = "cands_of nb (S ! (k - 1))"
  have gc: "CechComplex_getCandidates nb S k = Inr ?cands"
  proof (rule CechComplex_getCandidates_in[where n = n])
    show "0 < k" "k - 1 < length S" using k by auto
    show "length nb = n" using nb by (simp add: nb_ok_def)
    show "\<forall>s \<in> set (S ! (k - 1)). s \<noteq> [] \<and> (\<forall>c \<in> set s. c < n)"
      using lv by (auto simp: simplex_ok_def)
  qed
  let ?I = "\<lambda>st. case st of ((Sk :: nat list list), m, (v :: nat set \<rightharpoonup> bool)) \<Rightarrow>
      dom memo \<subseteq> dom (m :: nat set \<rightharpoonup> point)"
  have "foldE (CechComplex_simk_step ps rs) ?cands ([], memo, ver)
      = Inr (foldl (simk_step_p ps rs) ([], memo, ver) ?cands)
      \<and> ?I (foldl (simk_step_p ps rs) ([], memo, ver) ?cands)"
  proof (rule foldE_Inr_inv[where I = ?I])
    show "?I ([], memo, ver)" by simp
  next
    fix st cand assume c: "cand \<in> set ?cands" and I: "?I st"
    obtain Sk m v where st: "st = (Sk, m, v)" by (cases st)
    from I st have dm: "dom memo \<subseteq> dom m" by simp
    have ok: "simplex_ok n k cand" "butlast cand \<in> set (S ! (k - 1))"
      using cands_of_simplex_ok[OF nb lv _ c] k by auto
    have rng: "\<forall>c \<in> set cand. c < length ps \<and> c < length rs"
      using ok(1) len by (auto simp: simplex_ok_def)
    have ne: "cand \<noteq> []" using ok(1) by (auto simp: simplex_ok_def)
    have mm: "m (set (butlast cand)) \<noteq> None" if "length cand > 3"
    proof -
      have "3 \<le> k" using that ok(1) by (simp add: simplex_ok_def)
      from memo[OF this] ok(2) have "memo (set (butlast cand)) \<noteq> None" by blast
      then show ?thesis using dm by blast
    qed
    have v: "CechComplex_verify ps rs m cand = Inr (verify_p ps rs m cand)"
      by (rule CechComplex_verify_in[where memo = m, OF rng ne]) (rule mm)
    have eq: "CechComplex_simk_step ps rs st cand = Inr (simk_step_p ps rs st cand)"
      using v by (simp add: st CechComplex_simk_step_def simk_step_p_def Let_def split: option.splits)
    obtain Sk' m' v' where st': "simk_step_p ps rs st cand = (Sk', m', v')"
      by (cases "simk_step_p ps rs st cand")
    then have "dom m \<subseteq> dom m'" using simk_step_p_dom st by blast
    then have "?I (simk_step_p ps rs st cand)" using dm st' by auto
    then show "CechComplex_simk_step ps rs st cand = Inr (simk_step_p ps rs st cand)
        \<and> ?I (simk_step_p ps rs st cand)"
      using eq by simp
  qed
  then show ?thesis using gc by (simp add: CechComplex_simk_level_def)
qed

lemma simk_level_p_struct:
  assumes "foldl (simk_step_p ps rs) ([], memo, ver) cands = (Sk, memo', ver')"
  shows "set Sk \<subseteq> set cands \<and> (\<forall>s \<in> set Sk. memo' (set s) \<noteq> None) \<and> dom memo \<subseteq> dom memo'"
proof -
  let ?I = "\<lambda>st. case st of (Sk, m, (v :: nat set \<rightharpoonup> bool)) \<Rightarrow>
      set Sk \<subseteq> set cands \<and> (\<forall>s \<in> set Sk. (m :: nat set \<rightharpoonup> point) (set s) \<noteq> None) \<and> dom memo \<subseteq> dom m"
  have "?I (foldl (simk_step_p ps rs) ([], memo, ver) cands)"
  proof (rule foldl_inv[where I = ?I])
    show "?I ([], memo, ver)" by simp
  next
    fix st x assume "x \<in> set cands" "?I st"
    then show "?I (simk_step_p ps rs st x)"
      by (cases st) (auto simp: simk_step_p_def split: option.splits)
  qed
  then show ?thesis using assms by simp
qed

section \<open>The level loop of the witness-caching strategy terminates without exception\<close>

lemma simplex_ok_bound: "simplex_ok n k s \<Longrightarrow> k + 1 \<le> n"
proof -
  assume s: "simplex_ok n k s"
  then have "card (set s) = k + 1" by (simp add: simplex_ok_def distinct_card)
  moreover have "set s \<subseteq> {..<n}" using s by (auto simp: simplex_ok_def)
  then have "card (set s) \<le> n" using subset_eq_atLeast0_lessThan_card by (simp add: lessThan_atLeast0)
  ultimately show ?thesis by simp
qed

lemma CechComplex_simk_total:
  assumes len: "n \<le> length ps" "n \<le> length rs" and nb: "nb_ok n nb"
  shows "2 \<le> k \<Longrightarrow> length S = k \<Longrightarrow> levels_ok n S \<Longrightarrow> memo_has memo S \<Longrightarrow>
     \<exists>S' memo'. CechComplex_simk ps rs maxK nb k S memo ver = Some (Inr (S', memo'))
        \<and> levels_ok n S' \<and> memo_has memo' S' \<and> take k S' = S
        \<and> (\<forall>j. k \<le> j \<and> j < length S' \<longrightarrow> S' ! j \<noteq> [])
        \<and> (cutoff maxK k \<or> \<not> cutoff maxK (length S' - 1))
        \<and> (cutoff maxK k \<longrightarrow> S' = S)"
proof (induction "n + 1 - k" arbitrary: k S memo ver rule: less_induct)
  case less
  note k = \<open>2 \<le> k\<close> \<open>length S = k\<close>
  show ?case
  proof (cases "cutoff maxK k")
    case True
    then show ?thesis
      using less.prems by (subst CechComplex_simk.simps) auto
  next
    case nocut: False
    have lv: "\<forall>s \<in> set (S ! (k - 1)). simplex_ok n (k - 1) s"
      using less.prems by (auto simp: levels_ok_def)
    have mm: "\<forall>s \<in> set (S ! (k - 1)). memo (set s) \<noteq> None" if "3 \<le> k"
    proof -
      have "2 \<le> k - 1 \<and> k - 1 < length S" using that k by simp
      then show ?thesis using less.prems(4) unfolding memo_has_def by blast
    qed
    let ?cands = "cands_of nb (S ! (k - 1))"
    obtain Sk memo' ver' where fl: "foldl (simk_step_p ps rs) ([], memo, ver) ?cands = (Sk, memo', ver')"
      by (cases "foldl (simk_step_p ps rs) ([], memo, ver) ?cands")
    have lvl: "CechComplex_simk_level ps rs nb S k memo ver = Inr (Sk, memo', ver')"
      using CechComplex_simk_level_in[OF len nb k lv mm] fl by simp
    from simk_level_p_struct[OF fl]
    have sub: "set Sk \<subseteq> set ?cands" and has: "\<forall>s \<in> set Sk. memo' (set s) \<noteq> None"
      and dm: "dom memo \<subseteq> dom memo'" by auto
    have okk: "\<forall>s \<in> set Sk. simplex_ok n k s"
      using sub cands_of_simplex_ok[OF nb lv] k by auto
    have mh: "memo_has memo' S"
      using less.prems(4) dm unfolding memo_has_def by (meson domIff subsetD)
    show ?thesis
    proof (cases "Sk = []")
      case True
      have "CechComplex_simk ps rs maxK nb k S memo ver = Some (Inr (S, memo'))"
        using nocut lvl True by (subst CechComplex_simk.simps) simp
      then show ?thesis
        using less.prems mh nocut k
        by (cases "k = 2") (auto simp: cutoff_def split: option.splits)
    next
      case False
      then obtain s where "s \<in> set Sk" by (cases Sk) auto
      then have "k + 1 \<le> n" using okk simplex_ok_bound by blast
      then have meas: "n + 1 - (k + 1) < n + 1 - k" by simp
      have lo': "levels_ok n (S @ [Sk])"
        using less.prems(3) okk k unfolding levels_ok_def
        by (auto simp: nth_append less_Suc_eq)
      have mh': "memo_has memo' (S @ [Sk])"
        using mh has k unfolding memo_has_def
        by (auto simp: nth_append less_Suc_eq)
      from less.hyps[OF meas _ _ lo' mh', of ver'] k
      obtain S' memo'' where r: "CechComplex_simk ps rs maxK nb (k + 1) (S @ [Sk]) memo' ver' = Some (Inr (S', memo''))"
        and post: "levels_ok n S'" "memo_has memo'' S'" "take (k + 1) S' = S @ [Sk]"
          "\<forall>j. k + 1 \<le> j \<and> j < length S' \<longrightarrow> S' ! j \<noteq> []"
          "cutoff maxK (k + 1) \<or> \<not> cutoff maxK (length S' - 1)"
        by auto
      have run: "CechComplex_simk ps rs maxK nb k S memo ver = Some (Inr (S', memo''))"
        using nocut lvl False r by (subst CechComplex_simk.simps) simp
      have lenS': "k + 1 \<le> length S'"
        using post(3) k by (metis length_append_singleton length_take min.cobounded1 Suc_eq_plus1)
      have tk: "take k S' = S"
        using post(3) k by (metis append_eq_conv_conj take_take min.idem min_def le_add1 length_append_singleton butlast_snoc butlast_take diff_add_inverse2 lenS')
      have atk: "S' ! k = Sk"
        using post(3) k lenS' by (metis nth_take nth_append_length lessI Suc_eq_plus1)
      have ne: "\<forall>j. k \<le> j \<and> j < length S' \<longrightarrow> S' ! j \<noteq> []"
        using post(4) atk False by (metis Suc_eq_plus1 Suc_leI le_neq_implies_less)
      have cut: "\<not> cutoff maxK (length S' - 1)"
      proof (cases "cutoff maxK (k + 1)")
        case True
        then have "CechComplex_simk ps rs maxK nb (k + 1) (S @ [Sk]) memo' ver' = Some (Inr (S @ [Sk], memo'))"
          by (subst CechComplex_simk.simps) simp
        then have "S' = S @ [Sk]" using r by simp
        then show ?thesis using nocut k by simp
      next
        case False
        then show ?thesis using post(5) by simp
      qed
      show ?thesis
        using run post(1,2) tk ne cut nocut by simp
    qed
  qed
qed

section \<open>The baseline strategy without exceptions\<close>

lemma combinations_props:
  "l \<in> set (combinations xs k) \<Longrightarrow>
     length l = k \<and> set l \<subseteq> set xs \<and> (distinct xs \<longrightarrow> distinct l)"
proof (induction xs k arbitrary: l rule: combinations.induct)
  case (1 xs)
  then show ?case by simp
next
  case (2 k)
  then show ?case by simp
next
  case (3 x xs k)
  from "3.prems" consider t where "l = x # t" "t \<in> set (combinations xs k)"
    | "l \<in> set (combinations xs (Suc k))" by auto
  then show ?case
  proof cases
    case 1
    with "3.IH"(1)[of t] show ?thesis by auto
  next
    case 2
    with "3.IH"(2)[of l] show ?thesis by auto
  qed
qed

lemma CechComplexLE_verify_in:
  assumes rng: "\<forall>c \<in> set cells. c < length ps \<and> c < length rs" and ne: "cells \<noteq> []"
  shows "CechComplexLE_verify ps rs cells = Inr (verify_LE_p ps rs cells)"
proof -
  let ?sm = "smallest_of rs cells"
  have sm: "?sm \<in> set cells" by (rule smallest_of_mem[OF ne])
  then have smr: "?sm < length ps" "?sm < length rs" using rng by auto
  have fs: "find_smallest rs cells = Inr ?sm"
    using rng ne by (intro find_smallest_in) auto
  have ai: "all_inside ps rs cells ?sm = Inr (contains_all ps rs cells ?sm)"
    by (rule all_inside_in[OF rng smr])
  let ?g = "\<lambda>l. map (\<lambda>p. (p, l ! 0, l ! 1)) (cpts ps rs (l ! 0) (l ! 1))"
  have m: "mapE (\<lambda>ij. case ij of [i, j] \<Rightarrow>
                 bindE (intersection ps rs i j) (\<lambda>x. Inr (map (\<lambda>p. (p, i, j)) x))
               | _ \<Rightarrow> Inr []) (combinations cells 2)
        = Inr (map ?g (combinations cells 2))"
  proof (rule mapE_Inr)
    fix l assume l: "l \<in> set (combinations cells 2)"
    from combinations_props[OF l] have "length l = 2" "set l \<subseteq> set cells" by auto
    then obtain i j where ij: "l = [i, j]" "i \<in> set cells" "j \<in> set cells"
      by (cases l; cases "tl l") auto
    then show "(case l of [i, j] \<Rightarrow>
                 bindE (intersection ps rs i j) (\<lambda>x. Inr (map (\<lambda>p. (p, i, j)) x))
               | _ \<Rightarrow> Inr []) = Inr (?g l)"
      using rng by (simp add: intersection_in)
  qed
  let ?h = "\<lambda>(p, i, j). if (\<forall>c \<in> set cells. c = i \<or> c = j \<or> in_disc p (ps ! c) (rs ! c))
                          then Some p else None"
  have f: "first_some (\<lambda>(p, i, j).
                 bindE (allE (\<lambda>cellid.
                          if cellid = i \<or> cellid = j then Inr True
                          else isPointInsideCell ps rs p cellid) cells) (\<lambda>exists.
                 Inr (if exists then Some p else None))) xs
        = Inr (firstP ?h xs)" for xs
  proof (rule first_some_Inr)
    fix x :: "point \<times> nat \<times> nat"
    obtain p i j where x: "x = (p, i, j)" by (cases x)
    have "allE (\<lambda>cellid.
                          if cellid = i \<or> cellid = j then Inr True
                          else isPointInsideCell ps rs p cellid) cells
        = Inr (\<forall>c \<in> set cells. c = i \<or> c = j \<or> in_disc p (ps ! c) (rs ! c))"
      by (rule allE_Inr) (use rng in \<open>auto simp: isPointInsideCell_in\<close>)
    then show "(case x of (p, i, j) \<Rightarrow>
                 bindE (allE (\<lambda>cellid.
                          if cellid = i \<or> cellid = j then Inr True
                          else isPointInsideCell ps rs p cellid) cells) (\<lambda>exists.
                 Inr (if exists then Some p else None)))
        = Inr (?h x)"
      by (simp add: x)
  qed
  have ex: "firstP ?h (concat (map ?g (combinations cells 2))) \<noteq> None \<longleftrightarrow>
      (\<exists>l \<in> set (combinations cells 2). \<exists>p \<in> set (cpts ps rs (l ! 0) (l ! 1)).
            \<forall>c \<in> set cells. c = l ! 0 \<or> c = l ! 1 \<or> in_disc p (ps ! c) (rs ! c))"
    unfolding firstP_None by (auto split: if_splits)
  show ?thesis
    using fs ai m f ex
    by (simp add: CechComplexLE_verify_def verify_LE_p_def)
qed

lemma CechComplexLE_getCandidates_in:
  assumes "length nb = n"
  shows "CechComplexLE_getCandidates nb n k = Inr (cands_LE nb n k)"
proof -
  have "mapE (\<lambda>i. bindE (getitem nb i) (\<lambda>ni.
              Inr (map (\<lambda>cand. i # cand) (combinations ni k)))) [0..<n]
      = Inr (map (\<lambda>i. map (\<lambda>cand. i # cand) (combinations (nb ! i) k)) [0..<n])"
    by (rule mapE_Inr) (use assms in simp)
  then show ?thesis
    by (simp add: CechComplexLE_getCandidates_def cands_LE_def)
qed

lemma cands_LE_iff:
  "cand \<in> set (cands_LE nb n k) \<longleftrightarrow>
     (\<exists>i l. cand = i # l \<and> i < n \<and> l \<in> set (combinations (nb ! i) k))"
  by (auto simp: cands_LE_def)

lemma cands_LE_simplex_ok:
  assumes nb: "nb_ok n nb" and c: "cand \<in> set (cands_LE nb n k)"
  shows "simplex_ok n k cand"
proof -
  from c obtain i l where il: "cand = i # l" "i < n" "l \<in> set (combinations (nb ! i) k)"
    unfolding cands_LE_iff by blast
  from nb il(2) have d: "distinct (nb ! i)" "i \<notin> set (nb ! i)" "\<forall>b \<in> set (nb ! i). b < n"
    by (auto simp: nb_ok_def)
  from combinations_props[OF il(3)] d il(1,2) show ?thesis
    by (auto simp: simplex_ok_def)
qed

lemma foldE_filter:
  assumes "\<And>x. x \<in> set xs \<Longrightarrow> f x = Inr (P x)"
  shows "foldE (\<lambda>Sk cand. bindE (f cand) (\<lambda>ok. Inr (if ok then Sk @ [cand] else Sk))) xs acc
       = Inr (acc @ filter P xs)"
  using assms by (induction xs arbitrary: acc) simp_all

lemma CechComplexLE_simk_level_in:
  assumes len: "n \<le> length ps" "n \<le> length rs" and nb: "nb_ok n nb"
  shows "CechComplexLE_simk_level ps rs nb n k
       = Inr (filter (verify_LE_p ps rs) (cands_LE nb n k))"
proof -
  have gc: "CechComplexLE_getCandidates nb n k = Inr (cands_LE nb n k)"
    using nb by (intro CechComplexLE_getCandidates_in) (simp add: nb_ok_def)
  have "foldE (\<lambda>Sk cand. bindE (CechComplexLE_verify ps rs cand) (\<lambda>ok.
              Inr (if ok then Sk @ [cand] else Sk))) (cands_LE nb n k) []
      = Inr ([] @ filter (verify_LE_p ps rs) (cands_LE nb n k))"
  proof (rule foldE_filter)
    fix cand assume "cand \<in> set (cands_LE nb n k)"
    from cands_LE_simplex_ok[OF nb this] len
    show "CechComplexLE_verify ps rs cand = Inr (verify_LE_p ps rs cand)"
      by (intro CechComplexLE_verify_in) (auto simp: simplex_ok_def)
  qed
  then show ?thesis using gc by (simp add: CechComplexLE_simk_level_def)
qed

lemma CechComplexLE_simk_total:
  assumes len: "n \<le> length ps" "n \<le> length rs" and nb: "nb_ok n nb"
  shows "2 \<le> k \<Longrightarrow> length S = k \<Longrightarrow> levels_ok n S \<Longrightarrow>
     \<exists>S'. CechComplexLE_simk ps rs maxK nb n k S = Some (Inr S')
        \<and> levels_ok n S' \<and> take k S' = S
        \<and> (\<forall>j. k \<le> j \<and> j < length S' \<longrightarrow> S' ! j \<noteq> [])
        \<and> (cutoff maxK k \<or> \<not> cutoff maxK (length S' - 1))
        \<and> (cutoff maxK k \<longrightarrow> S' = S)"
proof (induction "n + 1 - k" arbitrary: k S rule: less_induct)
  case less
  note k = \<open>2 \<le> k\<close> \<open>length S = k\<close>
  show ?case
  proof (cases "cutoff maxK k")
    case True
    then show ?thesis
      using less.prems by (subst CechComplexLE_simk.simps) auto
  next
    case nocut: False
    define Sk where "Sk = filter (verify_LE_p ps rs) (cands_LE nb n k)"
    have lvl: "CechComplexLE_simk_level ps rs nb n k = Inr Sk"
      unfolding Sk_def by (rule CechComplexLE_simk_level_in[OF len nb])
    have okk: "\<forall>s \<in> set Sk. simplex_ok n k s"
      using cands_LE_simplex_ok[OF nb] by (auto simp: Sk_def)
    show ?thesis
    proof (cases "Sk = []")
      case True
      have "CechComplexLE_simk ps rs maxK nb n k S = Some (Inr S)"
        using nocut lvl True by (subst CechComplexLE_simk.simps) simp
      then show ?thesis
        using less.prems nocut k
        by (cases "k = 2") (auto simp: cutoff_def split: option.splits)
    next
      case False
      then obtain s where "s \<in> set Sk" by (cases Sk) auto
      then have "k + 1 \<le> n" using okk simplex_ok_bound by blast
      then have meas: "n + 1 - (k + 1) < n + 1 - k" by simp
      have lo': "levels_ok n (S @ [Sk])"
        using less.prems(3) okk k unfolding levels_ok_def
        by (auto simp: nth_append less_Suc_eq)
      from less.hyps[OF meas _ _ lo'] k
      obtain S' where r: "CechComplexLE_simk ps rs maxK nb n (k + 1) (S @ [Sk]) = Some (Inr S')"
        and post: "levels_ok n S'" "take (k + 1) S' = S @ [Sk]"
          "\<forall>j. k + 1 \<le> j \<and> j < length S' \<longrightarrow> S' ! j \<noteq> []"
          "cutoff maxK (k + 1) \<or> \<not> cutoff maxK (length S' - 1)"
        by auto
      have run: "CechComplexLE_simk ps rs maxK nb n k S = Some (Inr S')"
        using nocut lvl False r by (subst CechComplexLE_simk.simps) simp
      have lenS': "k + 1 \<le> length S'"
        using post(2) k by (metis length_append_singleton length_take min.cobounded1 Suc_eq_plus1)
      have tk: "take k S' = S"
        using post(2) k by (metis append_eq_conv_conj take_take min.idem min_def le_add1 length_append_singleton butlast_snoc butlast_take diff_add_inverse2 lenS')
      have atk: "S' ! k = Sk"
        using post(2) k lenS' by (metis nth_take nth_append_length lessI Suc_eq_plus1)
      have ne: "\<forall>j. k \<le> j \<and> j < length S' \<longrightarrow> S' ! j \<noteq> []"
        using post(3) atk False by (metis Suc_eq_plus1 Suc_leI le_neq_implies_less)
      have cut: "\<not> cutoff maxK (length S' - 1)"
      proof (cases "cutoff maxK (k + 1)")
        case True
        then have "CechComplexLE_simk ps rs maxK nb n (k + 1) (S @ [Sk]) = Some (Inr (S @ [Sk]))"
          by (subst CechComplexLE_simk.simps) simp
        then have "S' = S @ [Sk]" using r by simp
        then show ?thesis using nocut k by simp
      next
        case False
        then show ?thesis using post(4) by simp
      qed
      show ?thesis
        using run post(1) tk ne cut nocut by simp
    qed
  qed
qed

section \<open>Both constructors return a complex on every input with enough radii\<close>

lemma sim1_nb_ok:
  assumes "sim1_inv ps rs n {(i, j). i < j \<and> j < n} (nb, S1)"
  shows "nb_ok n nb" and "levels_ok n [sim0 n, S1]"
proof -
  show "nb_ok n nb"
    using sim1_inv_final(1-3)[OF assms] by (auto simp: nb_ok_def)
  have "simplex_ok n 1 s" if "s \<in> set S1" for s
    using that sim1_inv_final(4)[OF assms] by (auto simp: simplex_ok_def)
  moreover have "simplex_ok n 0 s" if "s \<in> set (sim0 n)" for s
    using that by (auto simp: sim0_def simplex_ok_def)
  ultimately show "levels_ok n [sim0 n, S1]"
    by (auto simp: levels_ok_def less_Suc_eq)
qed

lemma CechComplex_run_total:
  assumes "length ps \<le> length rs"
  shows "\<exists>nb S1 S memo. sim1 ps rs (length ps) = Inr (nb, S1)
        \<and> CechComplex_run ps rs maxK = Some (Inr (S, memo))
        \<and> levels_ok (length ps) S \<and> memo_has memo S \<and> take 2 S = [sim0 (length ps), S1]
        \<and> (\<forall>j. 2 \<le> j \<and> j < length S \<longrightarrow> S ! j \<noteq> [])
        \<and> (cutoff maxK 2 \<or> \<not> cutoff maxK (length S - 1))
        \<and> (cutoff maxK 2 \<longrightarrow> S = [sim0 (length ps), S1])"
proof -
  let ?n = "length ps"
  from sim1_total[of ?n ps rs] assms obtain nb S1
    where s1: "sim1 ps rs ?n = Inr (nb, S1)"
      and inv: "sim1_inv ps rs ?n {(i, j). i < j \<and> j < ?n} (nb, S1)" by auto
  have mh: "memo_has Map.empty [sim0 ?n, S1]" by (auto simp: memo_has_def)
  have "\<exists>S' memo'. CechComplex_simk ps rs maxK nb 2 [sim0 ?n, S1] Map.empty Map.empty = Some (Inr (S', memo'))
        \<and> levels_ok ?n S' \<and> memo_has memo' S' \<and> take 2 S' = [sim0 ?n, S1]
        \<and> (\<forall>j. 2 \<le> j \<and> j < length S' \<longrightarrow> S' ! j \<noteq> [])
        \<and> (cutoff maxK 2 \<or> \<not> cutoff maxK (length S' - 1))
        \<and> (cutoff maxK 2 \<longrightarrow> S' = [sim0 ?n, S1])"
    by (rule CechComplex_simk_total[OF _ assms sim1_nb_ok(1)[OF inv] _ _ sim1_nb_ok(2)[OF inv] mh])
       simp_all
  then show ?thesis
    using s1 by (simp add: CechComplex_run_def Let_def)
qed

lemma CechComplexLE_cech_total:
  assumes "length ps \<le> length rs"
  shows "\<exists>nb S1 S. sim1 ps rs (length ps) = Inr (nb, S1)
        \<and> CechComplexLE_cech ps rs maxK = Some (Inr S)
        \<and> levels_ok (length ps) S \<and> take 2 S = [sim0 (length ps), S1]
        \<and> (\<forall>j. 2 \<le> j \<and> j < length S \<longrightarrow> S ! j \<noteq> [])
        \<and> (cutoff maxK 2 \<or> \<not> cutoff maxK (length S - 1))
        \<and> (cutoff maxK 2 \<longrightarrow> S = [sim0 (length ps), S1])"
proof -
  let ?n = "length ps"
  from sim1_total[of ?n ps rs] assms obtain nb S1
    where s1: "sim1 ps rs ?n = Inr (nb, S1)"
      and inv: "sim1_inv ps rs ?n {(i, j). i < j \<and> j < ?n} (nb, S1)" by auto
  have "\<exists>S'. CechComplexLE_simk ps rs maxK nb ?n 2 [sim0 ?n, S1] = Some (Inr S')
        \<and> levels_ok ?n S' \<and> take 2 S' = [sim0 ?n, S1]
        \<and> (\<forall>j. 2 \<le> j \<and> j < length S' \<longrightarrow> S' ! j \<noteq> [])
        \<and> (cutoff maxK 2 \<or> \<not> cutoff maxK (length S' - 1))
        \<and> (cutoff maxK 2 \<longrightarrow> S' = [sim0 ?n, S1])"
    by (rule CechComplexLE_simk_total[OF _ assms sim1_nb_ok(1)[OF inv] _ _ sim1_nb_ok(2)[OF inv]])
       simp_all
  then show ?thesis
    using s1 by (simp add: CechComplexLE_cech_def Let_def)
qed

section \<open>Scenario B: three concentric balls of radii 1, 2 and 3\<close>

lemma scenB_sim1:
  "sim1 [(0, 0), (0, 0), (0, 0)] [1, 2, 3] (Suc (Suc (Suc 0)))
     = Inr ([[1, 2], [0, 2], [0, 1]], [[0, 1], [0, 2], [1, 2]])"
  by (simp add: sim1_def sim1_step_def intersects_def dist_cells_def set_add_def upt_rec
      eval_nat_numeral)

lemma scenB_smallest: "find_smallest [1, 2, 3] [0, 1, 2] = Inr 0"
  by (simp add: find_smallest_def)

lemma scenB_inside: "all_inside [(0, 0), (0, 0), (0, 0)] [1, 2, 3] [0, 1, 2] 0 = Inr True"
  by (simp add: all_inside_def isCellInsideCell_def dist_cells_def)

lemma scenB_verify:
  "CechComplex_verify [(0, 0), (0, 0), (0, 0)] [1, 2, 3] Map.empty [0, 1, 2] = Inr (Some (0, 0))"
  by (simp add: CechComplex_verify_def scenB_smallest scenB_inside del: One_nat_def)

lemma scenB_level2:
  "CechComplex_simk_level [(0, 0), (0, 0), (0, 0)] [1, 2, 3] [[1, 2], [0, 2], [0, 1]]
     [sim0 (Suc (Suc (Suc 0))), [[0, 1], [0, 2], [1, 2]]] 2 Map.empty Map.empty
   = Inr ([[0, 1, 2]], [{0, 1, 2} \<mapsto> (0, 0)], [{0, 1, 2} \<mapsto> True])"
proof -
  have c: "CechComplex_getCandidates [[1, 2], [0, 2], [0, 1]]
      [sim0 (Suc (Suc (Suc 0))), [[0, 1], [0, 2], [1, 2]]] 2 = Inr [[0, 1, 2], [0, 2, 1], [1, 2, 0]]"
    by (simp add: CechComplex_getCandidates_def set_intersection_def set_difference_def
        eval_nat_numeral)
  have e: "{0, 2, 1} = {0, 1, 2 :: nat}" "{1, 2, 0} = {0, 1, 2 :: nat}" by auto
  show ?thesis
    unfolding CechComplex_simk_level_def c
    by (auto simp add: CechComplex_simk_step_def scenB_verify e Let_def simp del: One_nat_def)
qed

lemma scenB_level3:
  "CechComplex_simk_level ps rs [[1, 2], [0, 2], [0, 1]]
     ([sim0 (Suc (Suc (Suc 0))), [[0, 1], [0, 2], [1, 2]]] @ [[[0, 1, 2]]]) (2 + 1) memo ver
   = Inr ([], memo, ver)"
  by (simp add: CechComplex_simk_level_def CechComplex_getCandidates_def set_intersection_def
      set_difference_def eval_nat_numeral)

lemma scenB_simk:
  "\<not> cutoff maxK 2 \<Longrightarrow> \<not> cutoff maxK (2 + 1) \<Longrightarrow>
   CechComplex_simk [(0, 0), (0, 0), (0, 0)] [1, 2, 3] maxK [[1, 2], [0, 2], [0, 1]] 2
     [sim0 (Suc (Suc (Suc 0))), [[0, 1], [0, 2], [1, 2]]] Map.empty Map.empty
   = Some (Inr ([[[0], [1], [2]], [[0, 1], [0, 2], [1, 2]], [[0, 1, 2]]], [{0, 1, 2} \<mapsto> (0, 0)]))"
  apply (subst CechComplex_simk.simps)
  apply (simp only: scenB_level2 if_False sum.case prod.case)
  apply (subst CechComplex_simk.simps)
  apply (simp only: scenB_level3 if_False sum.case prod.case)
  apply (simp add: sim0_def)
  done

text \<open>
  Claim C9. For three balls centred at \<open>(0,0)\<close> with radii 1, 2 and 3 the witness-caching
  constructor returns level 1 with the three edges, level 2 with the single simplex
  \<open>[0,1,2]\<close>, and the memo table holds the witness \<open>(0,0)\<close> for it; the simplex is
  accepted by the containment shortcut: ball 0 has the least radius and the containment
  test succeeds for it.
\<close>

theorem scenario_B_concentric:
  "CechComplex_run [(0, 0), (0, 0), (0, 0)] [1, 2, 3] None
     = Some (Inr ([[[0], [1], [2]], [[0, 1], [0, 2], [1, 2]], [[0, 1, 2]]], [{0, 1, 2} \<mapsto> (0, 0)]))
   \<and> find_smallest [1, 2, 3] [0, 1, 2] = Inr 0
   \<and> all_inside [(0, 0), (0, 0), (0, 0)] [1, 2, 3] [0, 1, 2] 0 = Inr True
   \<and> CechComplex_verify [(0, 0), (0, 0), (0, 0)] [1, 2, 3] Map.empty [0, 1, 2] = Inr (Some (0, 0))"
  by (simp add: CechComplex_run_def scenB_sim1 scenB_simk cutoff_def scenB_smallest scenB_inside
      scenB_verify del: One_nat_def)

section \<open>The maximum-dimension cutoff\<close>




section \<open>The memo table always holds the simplex a candidate extends\<close>



section \<open>No input validation\<close>

lemma bindE_eq_Inl: "bindE m f = Inl e \<longleftrightarrow> m = Inl e \<or> (\<exists>x. m = Inr x \<and> f x = Inl e)"
  by (cases m) simp_all

lemma getitem_eq_Inl: "getitem xs i = Inl e \<longleftrightarrow> \<not> i < length xs \<and> e = IndexError"
  by (auto simp: getitem_def)

lemma sim1_step_error: "sim1_step ps rs i st j = Inl e \<Longrightarrow> e = IndexError"
  by (auto simp: sim1_step_def intersects_def dist_cells_def bindE_eq_Inl getitem_eq_Inl Let_def
      split: prod.splits if_splits)

lemma foldE_fails:
  assumes "x \<in> set xs" and "\<And>s. f s x = Inl e" and "\<And>s y e'. f s y = Inl e' \<Longrightarrow> e' = e"
  shows "foldE f xs s = Inl e"
  using assms(1)
proof (induction xs arbitrary: s)
  case Nil
  then show ?case by simp
next
  case (Cons y ys)
  show ?case
  proof (cases "f s y")
    case (Inl e')
    then show ?thesis using assms(3) by auto
  next
    case (Inr s1)
    then have "y \<noteq> x" using assms(2)[of s] by auto
    then have "x \<in> set ys" using Cons.prems by simp
    from Cons.IH[OF this] Inr show ?thesis by simp
  qed
qed

lemma intersects_short:
  assumes "0 < length ps" "j < length ps" "length rs = 0 \<or> length rs \<le> j"
  shows "intersects ps rs 0 j = Inl IndexError"
  using assms by (cases "0 < length rs") (auto simp: intersects_def dist_cells_in split: prod.splits)

lemma sim1_short:
  assumes "length rs < length ps" "2 \<le> length ps"
  shows "sim1 ps rs (length ps) = Inl IndexError"
proof -
  let ?n = "length ps"
  define j where "j = max (length rs) 1"
  have j: "j \<in> set [0 + 1..<?n]" "length rs = 0 \<or> length rs \<le> j"
    using assms by (auto simp: j_def)
  then have jn: "j < ?n" by simp
  have inner: "foldE (sim1_step ps rs 0) [0 + 1..<?n] st = Inl IndexError" for st
  proof (rule foldE_fails[OF j(1)])
    fix s :: "nat list list \<times> nat list list"
    have "intersects ps rs 0 j = Inl IndexError"
      using assms(2) by (intro intersects_short[OF _ jn j(2)]) auto
    then show "sim1_step ps rs 0 s j = Inl IndexError"
      by (cases s) (simp add: sim1_step_def)
  next
    fix s y e' assume "sim1_step ps rs 0 s y = Inl e'"
    then show "e' = IndexError" by (rule sim1_step_error)
  qed
  have "0 < ?n" using assms(2) by linarith
  then have "[0..<?n] = 0 # [1..<?n]" by (simp add: upt_rec)
  then show ?thesis
    using inner by (simp add: sim1_def)
qed

lemma sim1_small:
  assumes "length ps \<le> 1"
  shows "sim1 ps rs (length ps) = Inr (replicate (length ps) [], [])"
proof -
  have "length ps = 0 \<or> length ps = 1" using assms by linarith
  then show ?thesis by (auto simp: sim1_def)
qed

lemma CechComplex_run_small:
  assumes "length ps \<le> 1"
  shows "CechComplex_run ps rs maxK = Some (Inr ([sim0 (length ps), []], Map.empty))"
proof -
  have lvl: "CechComplex_simk_level ps rs nb [sim0 (length ps), []] 2 Map.empty Map.empty
      = Inr ([], Map.empty, Map.empty)" for nb
    by (simp add: CechComplex_simk_level_def CechComplex_getCandidates_def)
  show ?thesis
    unfolding CechComplex_run_def Let_def sim1_small[OF assms]
    by (subst CechComplex_simk.simps) (simp add: lvl)
qed

lemma CechComplexLE_cech_small:
  assumes "length ps \<le> 1"
  shows "CechComplexLE_cech ps rs maxK = Some (Inr [sim0 (length ps), []])"
proof -
  have c: "combinations ([] :: nat list) 2 = []" by (simp add: eval_nat_numeral)
  have "length ps = 0 \<or> length ps = 1" using assms by linarith
  then have lvl: "CechComplexLE_simk_level ps rs (replicate (length ps) []) (length ps) 2 = Inr []"
    by (auto simp: CechComplexLE_simk_level_def CechComplexLE_getCandidates_def c)
  show ?thesis
    unfolding CechComplexLE_cech_def Let_def sim1_small[OF assms]
    by (subst CechComplexLE_simk.simps) (simp add: lvl)
qed




section \<open>Which pairs of circles the fallback examines\<close>

lemma fallback_p_None:
  "fallback_p ps rs cells = None \<longleftrightarrow>
     \<not> (\<exists>j < length cells - 1. \<exists>p \<in> set (cpts ps rs (cells ! (length cells - 1)) (cells ! j)).
           in_others ps rs cells (length cells - 1) j p)"
  by (auto simp: fallback_p_def Let_def firstP_None split: if_splits)

lemma fallback_p_Some:
  assumes "fallback_p ps rs cells = Some p"
  shows "\<exists>j < length cells - 1. p \<in> set (cpts ps rs (cells ! (length cells - 1)) (cells ! j))
           \<and> in_others ps rs cells (length cells - 1) j p"
proof -
  let ?i = "length cells - 1"
  from assms obtain j where j: "j \<in> set [0..<?i]"
    "firstP (\<lambda>p. if in_others ps rs cells ?i j p then Some p else None)
       (cpts ps rs (cells ! ?i) (cells ! j)) = Some p"
    unfolding fallback_p_def Let_def by (blast dest: firstP_Some)
  from firstP_Some[OF j(2)] obtain q where "q \<in> set (cpts ps rs (cells ! ?i) (cells ! j))"
    "(if in_others ps rs cells ?i j q then Some q else None) = Some p" by blast
  then have "p \<in> set (cpts ps rs (cells ! ?i) (cells ! j))" "in_others ps rs cells ?i j p"
    by (auto split: if_splits)
  then show ?thesis using j(1) by auto
qed

lemma combinations_1: "combinations xs (Suc 0) = map (\<lambda>y. [y]) xs"
  by (induction xs) simp_all

lemma combinations_2_set:
  "set (combinations xs 2) = {[xs ! i, xs ! j] | i j. i < j \<and> j < length xs}"
proof (induction xs)
  case Nil
  then show ?case by (simp add: eval_nat_numeral)
next
  case (Cons x xs)
  have split: "combinations (x # xs) 2 = map ((#) x) (map (\<lambda>y. [y]) xs) @ combinations xs 2"
    by (simp add: eval_nat_numeral combinations_1)
  have "{[(x # xs) ! i, (x # xs) ! j] | i j. i < j \<and> j < length (x # xs)}
      = {[x, xs ! j] | j. j < length xs} \<union> {[xs ! i, xs ! j] | i j. i < j \<and> j < length xs}"
    (is "?L = ?A \<union> ?B")
  proof (intro set_eqI iffI)
    fix l assume "l \<in> ?L"
    then obtain i j where ij: "l = [(x # xs) ! i, (x # xs) ! j]" "i < j" "j < length (x # xs)"
      by blast
    then obtain j' where j': "j = Suc j'" "j' < length xs" by (cases j) auto
    show "l \<in> ?A \<union> ?B"
    proof (cases i)
      case 0
      then show ?thesis using ij j' by auto
    next
      case (Suc i')
      then have "l = [xs ! i', xs ! j']" "i' < j'" using ij j' by auto
      then show ?thesis using j' by blast
    qed
  next
    fix l assume "l \<in> ?A \<union> ?B"
    then consider j where "l = [x, xs ! j]" "j < length xs"
      | i j where "l = [xs ! i, xs ! j]" "i < j" "j < length xs" by blast
    then show "l \<in> ?L"
    proof cases
      case 1
      then have "l = [(x # xs) ! 0, (x # xs) ! Suc j]" "0 < Suc j" "Suc j < length (x # xs)" by auto
      then show ?thesis by blast
    next
      case 2
      then have "l = [(x # xs) ! Suc i, (x # xs) ! Suc j]" "Suc i < Suc j" "Suc j < length (x # xs)"
        by auto
      then show ?thesis by blast
    qed
  qed
  moreover have "set (map ((#) x) (map (\<lambda>y. [y]) xs)) = {[x, xs ! j] | j. j < length xs}"
    by (auto simp: in_set_conv_nth image_iff)
  ultimately show ?case using Cons.IH split by simp
qed

lemma sqrt_values: "sqrt 9 = 3" "sqrt 16 = 4" "sqrt 25 = 5" "sqrt 36 = 6"
  by (rule real_sqrt_unique; simp)+



lemma scenD_isect:
  "intersection [(0, 0), (6, 0), (3, 4), (3, 0)] [5, 5, 1, 100] 0 1 = Inr [(3, - 4), (3, 4)]"
  "intersection [(0, 0), (6, 0), (3, 4), (3, 0)] [5, 5, 1, 100] 3 0 = Inr []"
  "intersection [(0, 0), (6, 0), (3, 4), (3, 0)] [5, 5, 1, 100] 3 1 = Inr []"
  "intersection [(0, 0), (6, 0), (3, 4), (3, 0)] [5, 5, 1, 100] 3 2 = Inr []"
  by (simp_all add: intersection_def get_intersections_def sqrt_values Let_def eval_nat_numeral)

lemma scenD_fallback:
  "verify_fallback [(0, 0), (6, 0), (3, 4), (3, 0)] [5, 5, 1, 100] [0, 1, 2, 3] = Inr None"
proof -
  have u: "[0..<length [0 :: nat, 1, 2, 3] - 1] = [0, 1, 2]"
    by (simp add: upt_rec)
  show ?thesis
    unfolding verify_fallback_def Let_def u
    by (simp add: scenD_isect del: One_nat_def)
qed


section \<open>Geometry of two circles\<close>

lemma gi_points_on_circles:
  assumes "(px, py) \<in> set (gi_points x0 y0 r0 x1 y1 r1)"
  shows "(x0 - px)\<^sup>2 + (y0 - py)\<^sup>2 = r0\<^sup>2 \<and> (x1 - px)\<^sup>2 + (y1 - py)\<^sup>2 = r1\<^sup>2"
proof -
  define d where "d = sqrt ((x1 - x0)\<^sup>2 + (y1 - y0)\<^sup>2)"
  define a where "a = (r0\<^sup>2 - r1\<^sup>2 + d\<^sup>2) / (2 * d)"
  define h where "h = sqrt (r0\<^sup>2 - a\<^sup>2)"
  have d0: "0 \<le> d" by (simp add: d_def)
  from assms have g: "\<not> (d > r0 + r1 \<or> d < \<bar>r0 - r1\<bar> \<or> d = 0)"
    unfolding gi_points_def Let_def d_def[symmetric] by (auto split: if_splits)
  then have dpos: "0 < d" and up: "d \<le> r0 + r1" and lo: "\<bar>r0 - r1\<bar> \<le> d" using d0 by auto
  have d2: "d\<^sup>2 = (x1 - x0)\<^sup>2 + (y1 - y0)\<^sup>2" by (simp add: d_def)
  have "a\<^sup>2 \<le> r0\<^sup>2" unfolding a_def by (rule gi_sq_le[OF dpos up lo])
  then have h2: "h\<^sup>2 = r0\<^sup>2 - a\<^sup>2" by (simp add: h_def)
  have ad: "2 * a * d = r0\<^sup>2 - r1\<^sup>2 + d\<^sup>2" using dpos by (simp add: a_def)
  define ux where "ux = (x1 - x0) / d"
  define uy where "uy = (y1 - y0) / d"
  have "ux\<^sup>2 + uy\<^sup>2 = ((x1 - x0)\<^sup>2 + (y1 - y0)\<^sup>2) / d\<^sup>2"
    by (simp add: ux_def uy_def power_divide add_divide_distrib)
  also have "\<dots> = 1" using dpos by (simp add: d2[symmetric])
  finally have u1: "ux\<^sup>2 + uy\<^sup>2 = 1" .
  have ud: "x1 - x0 = d * ux" "y1 - y0 = d * uy" using dpos by (simp_all add: ux_def uy_def)
  from assms g have "(px, py) = (x0 + a * ux + h * uy, y0 + a * uy - h * ux)
      \<or> (px, py) = (x0 + a * ux - h * uy, y0 + a * uy + h * ux)"
    unfolding gi_points_def Let_def d_def[symmetric] a_def[symmetric] h_def[symmetric] ux_def uy_def
    by (auto split: if_splits)
  then consider "px = x0 + a * ux + h * uy" "py = y0 + a * uy - h * ux"
    | "px = x0 + a * ux - h * uy" "py = y0 + a * uy + h * ux" by auto
  then show ?thesis
  proof cases
    case 1
    have e0: "(x0 - px)\<^sup>2 + (y0 - py)\<^sup>2 = (a\<^sup>2 + h\<^sup>2) * (ux\<^sup>2 + uy\<^sup>2)"
      unfolding 1 by (simp add: power2_eq_square algebra_simps)
    have xe: "x1 - px = (d - a) * ux - h * uy" "y1 - py = (d - a) * uy + h * ux"
      using ud unfolding 1 by (simp_all add: algebra_simps)
    have "(x1 - px)\<^sup>2 + (y1 - py)\<^sup>2 = ((d - a) * ux - h * uy)\<^sup>2 + ((d - a) * uy + h * ux)\<^sup>2"
      by (simp only: xe)
    also have "\<dots> = ((d - a)\<^sup>2 + h\<^sup>2) * (ux\<^sup>2 + uy\<^sup>2)"
      by (simp add: power2_eq_square algebra_simps)
    finally have e1: "(x1 - px)\<^sup>2 + (y1 - py)\<^sup>2 = ((d - a)\<^sup>2 + h\<^sup>2) * (ux\<^sup>2 + uy\<^sup>2)" .
    have "(d - a)\<^sup>2 + h\<^sup>2 = r1\<^sup>2"
      using h2 ad by (simp add: power2_eq_square algebra_simps)
    then show ?thesis using e0 e1 u1 h2 by simp
  next
    case 2
    have e0: "(x0 - px)\<^sup>2 + (y0 - py)\<^sup>2 = (a\<^sup>2 + h\<^sup>2) * (ux\<^sup>2 + uy\<^sup>2)"
      unfolding 2 by (simp add: power2_eq_square algebra_simps)
    have xe: "x1 - px = (d - a) * ux + h * uy" "y1 - py = (d - a) * uy - h * ux"
      using ud unfolding 2 by (simp_all add: algebra_simps)
    have "(x1 - px)\<^sup>2 + (y1 - py)\<^sup>2 = ((d - a) * ux + h * uy)\<^sup>2 + ((d - a) * uy - h * ux)\<^sup>2"
      by (simp only: xe)
    also have "\<dots> = ((d - a)\<^sup>2 + h\<^sup>2) * (ux\<^sup>2 + uy\<^sup>2)"
      by (simp add: power2_eq_square algebra_simps)
    finally have e1: "(x1 - px)\<^sup>2 + (y1 - py)\<^sup>2 = ((d - a)\<^sup>2 + h\<^sup>2) * (ux\<^sup>2 + uy\<^sup>2)" .
    have "(d - a)\<^sup>2 + h\<^sup>2 = r1\<^sup>2"
      using h2 ad by (simp add: power2_eq_square algebra_simps)
    then show ?thesis using e0 e1 u1 h2 by simp
  qed
qed

lemma on_circles_in_gi_points:
  assumes c0: "(x0 - px)\<^sup>2 + (y0 - py)\<^sup>2 = r0\<^sup>2" and c1: "(x1 - px)\<^sup>2 + (y1 - py)\<^sup>2 = r1\<^sup>2"
    and r: "0 \<le> r0" "0 \<le> r1" and nc: "\<not> (x0 = x1 \<and> y0 = y1 \<and> r0 = r1)"
  shows "(px, py) \<in> set (gi_points x0 y0 r0 x1 y1 r1)"
proof -
  define dx where "dx = x1 - x0"
  define dy where "dy = y1 - y0"
  define d where "d = sqrt (dx\<^sup>2 + dy\<^sup>2)"
  define a where "a = (r0\<^sup>2 - r1\<^sup>2 + d\<^sup>2) / (2 * d)"
  define h where "h = sqrt (r0\<^sup>2 - a\<^sup>2)"
  have d0: "0 \<le> d" by (simp add: d_def)
  have d2: "d\<^sup>2 = dx\<^sup>2 + dy\<^sup>2" by (simp add: d_def)
  have e0: "cdist (x0, y0) (px, py) = r0" using c0 r by (simp add: cdist_def)
  have e1: "cdist (x1, y1) (px, py) = r1" using c1 r by (simp add: cdist_def)
  have ed: "cdist (x0, y0) (x1, y1) = d"
    by (simp add: cdist_def d_def dx_def dy_def power2_commute)
  have dne: "d \<noteq> 0"
  proof
    assume "d = 0"
    then have "dx\<^sup>2 + dy\<^sup>2 = 0" using d2 by simp
    then have "dx = 0" "dy = 0" by (simp_all add: sum_power2_eq_zero_iff)
    then have xy: "x0 = x1" "y0 = y1" by (simp_all add: dx_def dy_def)
    then have "r0\<^sup>2 = r1\<^sup>2" using c0 c1 by simp
    then have "r0 = r1" using r by (simp add: power2_eq_iff_nonneg)
    then show False using nc xy by simp
  qed
  then have dpos: "0 < d" using d0 by simp
  have up: "d \<le> r0 + r1"
    using cdist_triangle[of "(x0, y0)" "(x1, y1)" "(px, py)"] e0 e1 ed
    by (simp add: cdist_sym)
  have lo: "\<bar>r0 - r1\<bar> \<le> d"
    using cdist_triangle[of "(x0, y0)" "(px, py)" "(x1, y1)"]
      cdist_triangle[of "(x1, y1)" "(px, py)" "(x0, y0)"] e0 e1 ed
    by (simp add: cdist_sym)
  have "a\<^sup>2 \<le> r0\<^sup>2" unfolding a_def by (rule gi_sq_le[OF dpos up lo])
  then have h2: "h\<^sup>2 = r0\<^sup>2 - a\<^sup>2" and h0: "0 \<le> h" by (simp_all add: h_def)
  define A where "A = (px - x0) * dx + (py - y0) * dy"
  define B where "B = (px - x0) * dy - (py - y0) * dx"
  have c0': "(px - x0)\<^sup>2 + (py - y0)\<^sup>2 = r0\<^sup>2" using c0 by (simp add: power2_commute)
  have "(x1 - px)\<^sup>2 + (y1 - py)\<^sup>2 = (dx - (px - x0))\<^sup>2 + (dy - (py - y0))\<^sup>2"
    by (simp add: dx_def dy_def)
  also have "\<dots> = (dx\<^sup>2 + dy\<^sup>2) - 2 * A + ((px - x0)\<^sup>2 + (py - y0)\<^sup>2)"
    by (simp add: A_def power2_eq_square algebra_simps)
  finally have "r1\<^sup>2 = d\<^sup>2 - 2 * A + r0\<^sup>2" using c1 c0' d2 by simp
  then have "A = (r0\<^sup>2 - r1\<^sup>2 + d\<^sup>2) / 2" by simp
  then have Aad: "A = a * d" using dne by (simp add: a_def)
  have "A\<^sup>2 + B\<^sup>2 = (dx\<^sup>2 + dy\<^sup>2) * ((px - x0)\<^sup>2 + (py - y0)\<^sup>2)"
    by (simp add: A_def B_def power2_eq_square algebra_simps)
  then have "B\<^sup>2 = d\<^sup>2 * r0\<^sup>2 - (a * d)\<^sup>2" using d2 c0' Aad by simp
  also have "\<dots> = d\<^sup>2 * (r0\<^sup>2 - a\<^sup>2)" by (simp add: power2_eq_square algebra_simps)
  also have "\<dots> = (d * h)\<^sup>2" by (simp add: h2[symmetric] power_mult_distrib)
  finally have "B = d * h \<or> B = - (d * h)" by (simp add: power2_eq_iff)
  moreover have decx: "(px - x0) * d\<^sup>2 = A * dx + B * dy"
    unfolding d2 by (simp add: A_def B_def power2_eq_square algebra_simps)
  moreover have decy: "(py - y0) * d\<^sup>2 = A * dy - B * dx"
    unfolding d2 by (simp add: A_def B_def power2_eq_square algebra_simps)
  ultimately consider "(px - x0) * d\<^sup>2 = a * d * dx + d * h * dy" "(py - y0) * d\<^sup>2 = a * d * dy - d * h * dx"
    | "(px - x0) * d\<^sup>2 = a * d * dx - d * h * dy" "(py - y0) * d\<^sup>2 = a * d * dy + d * h * dx"
    using Aad by auto
  then have "(px = x0 + a * dx / d + h * dy / d \<and> py = y0 + a * dy / d - h * dx / d)
      \<or> (px = x0 + a * dx / d - h * dy / d \<and> py = y0 + a * dy / d + h * dx / d)"
  proof cases
    case 1
    have "px - x0 = (a * d * dx + d * h * dy) / d\<^sup>2" using 1(1) dne by (simp add: field_simps)
    also have "\<dots> = a * dx / d + h * dy / d" using dne by (simp add: field_simps power2_eq_square)
    finally have x: "px = x0 + a * dx / d + h * dy / d" by simp
    have "py - y0 = (a * d * dy - d * h * dx) / d\<^sup>2" using 1(2) dne by (simp add: field_simps)
    also have "\<dots> = a * dy / d - h * dx / d" using dne by (simp add: field_simps power2_eq_square)
    finally have "py = y0 + a * dy / d - h * dx / d" by simp
    then show ?thesis using x by simp
  next
    case 2
    have "px - x0 = (a * d * dx - d * h * dy) / d\<^sup>2" using 2(1) dne by (simp add: field_simps)
    also have "\<dots> = a * dx / d - h * dy / d" using dne by (simp add: field_simps power2_eq_square)
    finally have x: "px = x0 + a * dx / d - h * dy / d" by simp
    have "py - y0 = (a * d * dy + d * h * dx) / d\<^sup>2" using 2(2) dne by (simp add: field_simps)
    also have "\<dots> = a * dy / d + h * dx / d" using dne by (simp add: field_simps power2_eq_square)
    finally have "py = y0 + a * dy / d + h * dx / d" by simp
    then show ?thesis using x by simp
  qed
  moreover have "gi_points x0 y0 r0 x1 y1 r1
      = [(x0 + a * dx / d + h * dy / d, y0 + a * dy / d - h * dx / d),
         (x0 + a * dx / d - h * dy / d, y0 + a * dy / d + h * dx / d)]"
    using dpos up lo
    unfolding gi_points_def Let_def dx_def[symmetric] dy_def[symmetric] d_def[symmetric]
      a_def[symmetric] h_def[symmetric]
    by simp
  ultimately show ?thesis by auto
qed

lemma cdist_zero_iff: "cdist p q = 0 \<longleftrightarrow> p = q"
proof -
  have "cdist p q = 0 \<longleftrightarrow> (fst p - fst q)\<^sup>2 + (snd p - snd q)\<^sup>2 = 0"
    by (simp add: cdist_def)
  also have "\<dots> \<longleftrightarrow> fst p = fst q \<and> snd p = snd q"
    by (simp add: sum_power2_eq_zero_iff)
  also have "\<dots> \<longleftrightarrow> p = q" by (simp add: prod_eq_iff)
  finally show ?thesis .
qed

lemma cdist_sq: "(cdist p q)\<^sup>2 = (fst p - fst q)\<^sup>2 + (snd p - snd q)\<^sup>2"
  by (simp add: cdist_def)

lemma on_circle_in_disc: "on_circle p c r \<Longrightarrow> in_disc p c r"
  by (simp add: on_circle_def in_disc_def)

lemma disc_inside_subset:
  assumes r: "0 \<le> r" and d: "cdist c c' \<le> r' - r" and p: "in_disc p c r"
  shows "in_disc p c' r'"
proof -
  have "cdist c p \<le> r" using p r by (simp add: in_disc_iff)
  moreover have "cdist c' p \<le> cdist c' c + cdist c p" by (rule cdist_triangle)
  ultimately have "cdist c' p \<le> r'" using d by (simp add: cdist_sym)
  moreover have "0 \<le> r'" using d r cdist_nonneg[of c c'] by linarith
  ultimately show ?thesis by (simp add: in_disc_iff)
qed

lemma in_disc_convex:
  assumes p: "in_disc p c r" and q: "in_disc q c r" and t: "0 \<le> t" "t \<le> 1"
  shows "in_disc ((1 - t) * fst p + t * fst q, (1 - t) * snd p + t * snd q) c r"
proof -
  define u1 where "u1 = fst c - fst p"
  define u2 where "u2 = snd c - snd p"
  define v1 where "v1 = fst c - fst q"
  define v2 where "v2 = snd c - snd q"
  have pu: "u1\<^sup>2 + u2\<^sup>2 \<le> r\<^sup>2" using p by (simp add: in_disc_def u1_def u2_def)
  have qv: "v1\<^sup>2 + v2\<^sup>2 \<le> r\<^sup>2" using q by (simp add: in_disc_def v1_def v2_def)
  have e1: "fst c - ((1 - t) * fst p + t * fst q) = (1 - t) * u1 + t * v1"
    by (simp add: u1_def v1_def algebra_simps)
  have e2: "snd c - ((1 - t) * snd p + t * snd q) = (1 - t) * u2 + t * v2"
    by (simp add: u2_def v2_def algebra_simps)
  have id: "((1 - t) * u1 + t * v1)\<^sup>2 + ((1 - t) * u2 + t * v2)\<^sup>2
      = (1 - t) * (u1\<^sup>2 + u2\<^sup>2) + t * (v1\<^sup>2 + v2\<^sup>2) - t * (1 - t) * ((u1 - v1)\<^sup>2 + (u2 - v2)\<^sup>2)"
    by (simp add: power2_eq_square algebra_simps)
  have "0 \<le> t * (1 - t) * ((u1 - v1)\<^sup>2 + (u2 - v2)\<^sup>2)"
    using t by (intro mult_nonneg_nonneg) simp_all
  moreover have "(1 - t) * (u1\<^sup>2 + u2\<^sup>2) \<le> (1 - t) * r\<^sup>2"
    using t pu by (intro mult_left_mono) simp_all
  moreover have "t * (v1\<^sup>2 + v2\<^sup>2) \<le> t * r\<^sup>2"
    using t qv by (intro mult_left_mono) simp_all
  moreover have "(1 - t) * r\<^sup>2 + t * r\<^sup>2 = r\<^sup>2" by (simp add: algebra_simps)
  ultimately have "((1 - t) * u1 + t * v1)\<^sup>2 + ((1 - t) * u2 + t * v2)\<^sup>2 \<le> r\<^sup>2"
    unfolding id by linarith
  then show ?thesis
    unfolding in_disc_def fst_conv snd_conv e1 e2 .
qed

lemma segment_crossing:
  assumes q: "in_disc q c r" and w: "\<not> in_disc w c r"
  shows "\<exists>t. 0 \<le> t \<and> t \<le> 1
           \<and> on_circle ((1 - t) * fst q + t * fst w, (1 - t) * snd q + t * snd w) c r"
proof -
  define g where "g t = (fst c - ((1 - t) * fst q + t * fst w))\<^sup>2
      + (snd c - ((1 - t) * snd q + t * snd w))\<^sup>2" for t :: real
  have cont: "continuous_on {0..1} g"
    unfolding g_def by (intro continuous_intros)
  have g0: "g 0 \<le> r\<^sup>2" using q by (simp add: g_def in_disc_def)
  have g1: "r\<^sup>2 \<le> g 1" using w by (simp add: g_def in_disc_def)
  from IVT'[of g 0 "r\<^sup>2" 1, OF g0 g1 _ cont]
  obtain t where "0 \<le> t" "t \<le> 1" "g t = r\<^sup>2" by auto
  then show ?thesis by (auto simp: on_circle_def g_def)
qed

lemma far_point:
  assumes r': "0 \<le> r'" and r: "0 \<le> r" and n: "\<not> cdist c c' \<le> r' - r"
  shows "\<exists>p. on_circle p c r \<and> \<not> in_disc p c' r'"
proof (cases "cdist c c' = 0")
  case True
  then have cc: "c = c'" by (simp add: cdist_zero_iff)
  have rr: "r' < r" using n True by simp
  have "r'\<^sup>2 < r\<^sup>2" using rr r' by (intro power_strict_mono) simp_all
  then have "on_circle (fst c + r, snd c) c r \<and> \<not> in_disc (fst c + r, snd c) c' r'"
    by (simp add: on_circle_def in_disc_def cc[symmetric] not_le)
  then show ?thesis by blast
next
  case False
  define dl where "dl = cdist c c'"
  have dpos: "0 < dl" using False cdist_nonneg[of c c'] unfolding dl_def by linarith
  have d2: "dl\<^sup>2 = (fst c - fst c')\<^sup>2 + (snd c - snd c')\<^sup>2" by (simp add: dl_def cdist_sq)
  define s where "s = r / dl"
  define p where "p = (fst c + s * (fst c - fst c'), snd c + s * (snd c - snd c'))"
  have sd: "s * dl = r" using dpos by (simp add: s_def)
  have "(fst c - fst p)\<^sup>2 + (snd c - snd p)\<^sup>2 = s\<^sup>2 * dl\<^sup>2"
    unfolding d2 by (simp add: p_def power2_eq_square algebra_simps)
  also have "\<dots> = r\<^sup>2" using sd by (simp add: power_mult_distrib[symmetric])
  finally have on: "on_circle p c r" by (simp add: on_circle_def)
  have "(fst c' - fst p)\<^sup>2 + (snd c' - snd p)\<^sup>2 = (1 + s)\<^sup>2 * dl\<^sup>2"
    unfolding d2 by (simp add: p_def power2_eq_square algebra_simps)
  also have "\<dots> = (dl + r)\<^sup>2"
    using sd by (simp add: power_mult_distrib[symmetric] algebra_simps)
  finally have e: "(fst c' - fst p)\<^sup>2 + (snd c' - snd p)\<^sup>2 = (dl + r)\<^sup>2" .
  have "r' < dl + r" using n by (simp add: dl_def)
  then have "r'\<^sup>2 < (dl + r)\<^sup>2" using r' by (intro power_strict_mono) simp_all
  then have "\<not> in_disc p c' r'" using e by (simp add: in_disc_def)
  then show ?thesis using on by blast
qed

lemma min_margin_cont:
  "(\<And>f. f \<in> set fs \<Longrightarrow> continuous_on A f) \<Longrightarrow> continuous_on A (min_margin fs)"
proof (induction fs)
  case Nil
  have "min_margin [] = (\<lambda>t. 1)" by (rule ext) simp
  then show ?case by simp
next
  case (Cons f fs)
  have "min_margin (f # fs) = (\<lambda>t. min (f t) (min_margin fs t))" by (rule ext) simp
  moreover have "continuous_on A (\<lambda>t. min (f t) (min_margin fs t))"
    using Cons by (intro continuous_on_min) simp_all
  ultimately show ?case by simp
qed

lemma min_margin_nonneg: "0 \<le> min_margin fs t \<longleftrightarrow> (\<forall>f \<in> set fs. 0 \<le> f t)"
  by (induction fs) auto

lemma min_margin_zero: "min_margin fs t = 0 \<Longrightarrow> \<exists>f \<in> set fs. f t = 0"
  by (induction fs) (auto simp: min_def split: if_splits)

lemma circle_angle:
  assumes r: "0 < r" and p: "on_circle p c r"
  shows "\<exists>t. 0 \<le> t \<and> t < 2 * pi \<and> p = (fst c + r * cos t, snd c + r * sin t)"
proof -
  define x where "x = (fst p - fst c) / r"
  define y where "y = (snd p - snd c) / r"
  have "x\<^sup>2 + y\<^sup>2 = ((fst c - fst p)\<^sup>2 + (snd c - snd p)\<^sup>2) / r\<^sup>2"
    by (simp add: x_def y_def power_divide add_divide_distrib power2_commute)
  also have "\<dots> = 1" using p r by (simp add: on_circle_def)
  finally have "x\<^sup>2 + y\<^sup>2 = 1" .
  then obtain t where t: "0 \<le> t" "t < 2 * pi" "x = cos t" "y = sin t"
    by (rule sincos_total_2pi)
  have "fst p = fst c + r * cos t" "snd p = snd c + r * sin t"
    using t(3,4) r by (simp_all add: x_def y_def field_simps)
  then have "p = (fst c + r * cos t, snd c + r * sin t)" by (simp add: prod_eq_iff)
  then show ?thesis using t(1,2) by blast
qed

lemma arc_crossing:
  fixes ys :: "(point \<times> real) list"
  assumes r: "0 < r" and p0: "on_circle p0 c r" and p1: "on_circle p1 c r"
    and in0: "\<forall>y \<in> set ys. in_disc p0 (fst y) (snd y)"
    and out1: "\<exists>y \<in> set ys. \<not> in_disc p1 (fst y) (snd y)"
  shows "\<exists>p. on_circle p c r \<and> (\<forall>y \<in> set ys. in_disc p (fst y) (snd y))
           \<and> (\<exists>y \<in> set ys. on_circle p (fst y) (snd y))"
proof -
  define P where "P t = (fst c + r * cos t, snd c + r * sin t)" for t :: real
  from circle_angle[OF r p0] obtain t0 where t0: "0 \<le> t0" "t0 < 2 * pi" "p0 = P t0"
    unfolding P_def by blast
  from circle_angle[OF r p1] obtain t1 where t1: "0 \<le> t1" "t1 < 2 * pi" "p1 = P t1"
    unfolding P_def by blast
  define b where "b = (if t0 \<le> t1 then t1 else t1 + 2 * pi)"
  have b: "t0 \<le> b" "p1 = P b"
    using t0 t1 by (auto simp: b_def P_def)
  define m where "m y t = (snd y)\<^sup>2 - ((fst (fst y) - fst (P t))\<^sup>2 + (snd (fst y) - snd (P t))\<^sup>2)"
    for y :: "point \<times> real" and t :: real
  have m_in: "0 \<le> m y t \<longleftrightarrow> in_disc (P t) (fst y) (snd y)" for y t
    by (simp add: m_def in_disc_def)
  have m_on: "m y t = 0 \<longleftrightarrow> on_circle (P t) (fst y) (snd y)" for y t
    by (auto simp: m_def on_circle_def)
  define F where "F = min_margin (map m ys)"
  have cont: "continuous_on {t0..b} F"
    unfolding F_def
  proof (rule min_margin_cont)
    fix f assume "f \<in> set (map m ys)"
    then obtain y where "f = m y" by auto
    moreover have "continuous_on {t0..b} (m y)"
      unfolding m_def P_def fst_conv snd_conv by (intro continuous_intros)
    ultimately show "continuous_on {t0..b} f" by simp
  qed
  have F0: "0 \<le> F t0"
    unfolding F_def min_margin_nonneg using in0 t0(3) by (simp add: m_in)
  have "\<not> 0 \<le> F b"
    unfolding F_def min_margin_nonneg using out1 b(2) by (simp add: m_in)
  then have Fb: "F b \<le> 0" by simp
  from IVT2'[of F b 0 t0, OF Fb F0 b(1) cont]
  obtain t where t: "F t = 0" by blast
  have "0 \<le> min_margin (map m ys) t" using t by (simp add: F_def)
  then have all: "\<forall>y \<in> set ys. in_disc (P t) (fst y) (snd y)"
    unfolding min_margin_nonneg by (simp add: m_in)
  from min_margin_zero[of "map m ys" t] t
  have ex: "\<exists>y \<in> set ys. on_circle (P t) (fst y) (snd y)"
    by (auto simp: F_def m_on)
  have "(fst c - fst (P t))\<^sup>2 + (snd c - snd (P t))\<^sup>2 = (r * cos t)\<^sup>2 + (r * sin t)\<^sup>2"
    by (simp add: P_def)
  also have "\<dots> = r\<^sup>2 * ((cos t)\<^sup>2 + (sin t)\<^sup>2)"
    by (simp only: power_mult_distrib distrib_left)
  also have "\<dots> = r\<^sup>2" by (simp only: sin_cos_squared_add2 mult_1_right)
  finally have "on_circle (P t) c r" by (simp add: on_circle_def)
  then show ?thesis using all ex by blast
qed

lemma on_circle_zero: "on_circle p c 0 \<longleftrightarrow> p = c"
proof -
  have "on_circle p c 0 \<longleftrightarrow> fst c = fst p \<and> snd c = snd p"
    by (simp add: on_circle_def sum_power2_eq_zero_iff)
  then show ?thesis by (auto simp: prod_eq_iff)
qed

text \<open>
  The crossing lemma: a disc \<open>(c, r)\<close> and finitely many discs \<open>ys\<close> share a point \<open>q\<close>,
  and the discs \<open>ys\<close> share a point \<open>w\<close> outside \<open>(c, r)\<close>. Then either \<open>(c, r)\<close> lies
  inside every disc of \<open>ys\<close>, or the circle of \<open>(c, r)\<close> crosses the circle of some disc of
  \<open>ys\<close> in a point that \<open>get_intersections\<close> returns and that lies in all of \<open>ys\<close>.
\<close>

lemma boundary_crossing:
  fixes ys :: "(point \<times> real) list"
  assumes r: "0 \<le> r" and rs: "\<forall>y \<in> set ys. 0 \<le> snd y"
    and q: "in_disc q c r" "\<forall>y \<in> set ys. in_disc q (fst y) (snd y)"
    and w: "\<not> in_disc w c r" "\<forall>y \<in> set ys. in_disc w (fst y) (snd y)"
  shows "(\<forall>y \<in> set ys. cdist c (fst y) \<le> snd y - r)
       \<or> (\<exists>x \<in> set ys. \<exists>p \<in> set (gi_points (fst c) (snd c) r (fst (fst x)) (snd (fst x)) (snd x)).
            \<forall>y \<in> set ys. in_disc p (fst y) (snd y))"
proof (cases "\<forall>y \<in> set ys. cdist c (fst y) \<le> snd y - r")
  case True
  then show ?thesis by blast
next
  case False
  then obtain y0 where y0: "y0 \<in> set ys" "\<not> cdist c (fst y0) \<le> snd y0 - r" by blast
  have ry0: "0 \<le> snd y0" using rs y0(1) by blast
  from far_point[OF ry0 r y0(2)] obtain p1 where p1: "on_circle p1 c r" "\<not> in_disc p1 (fst y0) (snd y0)"
    by blast
  from segment_crossing[OF q(1) w(1)] obtain t where t: "0 \<le> t" "t \<le> 1"
    "on_circle ((1 - t) * fst q + t * fst w, (1 - t) * snd q + t * snd w) c r" by blast
  define p0 where "p0 = ((1 - t) * fst q + t * fst w, (1 - t) * snd q + t * snd w)"
  have p0: "on_circle p0 c r" using t(3) by (simp add: p0_def)
  have p0in: "\<forall>y \<in> set ys. in_disc p0 (fst y) (snd y)"
    unfolding p0_def using q(2) w(2) t(1,2) by (auto intro: in_disc_convex)
  have rpos: "0 < r"
  proof (rule ccontr)
    assume "\<not> 0 < r"
    then have "r = 0" using r by simp
    then have "p0 = c" "p1 = c" using p0 p1(1) by (simp_all add: on_circle_zero)
    then show False using p0in y0(1) p1(2) by blast
  qed
  define ys' where "ys' = filter (\<lambda>y. \<not> (fst y = c \<and> snd y = r)) ys"
  have "\<not> (fst y0 = c \<and> snd y0 = r)"
  proof
    assume "fst y0 = c \<and> snd y0 = r"
    then have "cdist c (fst y0) = 0" "snd y0 - r = 0" by (simp_all add: cdist_zero_iff)
    then show False using y0(2) by simp
  qed
  then have y0': "y0 \<in> set ys'" using y0(1) by (simp add: ys'_def)
  have in0: "\<forall>y \<in> set ys'. in_disc p0 (fst y) (snd y)" using p0in by (simp add: ys'_def)
  have out1: "\<exists>y \<in> set ys'. \<not> in_disc p1 (fst y) (snd y)" using y0' p1(2) by blast
  from arc_crossing[OF rpos p0 p1(1) in0 out1]
  obtain p x where p: "on_circle p c r" "\<forall>y \<in> set ys'. in_disc p (fst y) (snd y)"
    and x: "x \<in> set ys'" "on_circle p (fst x) (snd x)" by blast
  have pall: "\<forall>y \<in> set ys. in_disc p (fst y) (snd y)"
  proof
    fix y assume y: "y \<in> set ys"
    show "in_disc p (fst y) (snd y)"
    proof (cases "fst y = c \<and> snd y = r")
      case True
      then show ?thesis using p(1) by (simp add: on_circle_in_disc)
    next
      case False
      then have "y \<in> set ys'" using y by (simp add: ys'_def)
      then show ?thesis using p(2) by blast
    qed
  qed
  have xs: "x \<in> set ys" "\<not> (fst x = c \<and> snd x = r)" using x(1) by (simp_all add: ys'_def)
  have nc: "\<not> (fst c = fst (fst x) \<and> snd c = snd (fst x) \<and> r = snd x)"
    using xs(2) by (auto simp: prod_eq_iff)
  have "(fst p, snd p) \<in> set (gi_points (fst c) (snd c) r (fst (fst x)) (snd (fst x)) (snd x))"
  proof (rule on_circles_in_gi_points)
    show "(fst c - fst p)\<^sup>2 + (snd c - snd p)\<^sup>2 = r\<^sup>2" using p(1) by (simp add: on_circle_def)
    show "(fst (fst x) - fst p)\<^sup>2 + (snd (fst x) - snd p)\<^sup>2 = (snd x)\<^sup>2"
      using x(2) by (simp add: on_circle_def)
    show "0 \<le> r" by (rule r)
    show "0 \<le> snd x" using rs xs(1) by blast
    show "\<not> (fst c = fst (fst x) \<and> snd c = snd (fst x) \<and> r = snd x)" by (rule nc)
  qed
  then show ?thesis using xs(1) pall by auto
qed

section \<open>Soundness and completeness of the verifiers\<close>

lemma cpts_on_circles:
  assumes "p \<in> set (cpts ps rs a b)"
  shows "on_circle p (ps ! a) (rs ! a) \<and> on_circle p (ps ! b) (rs ! b)"
proof -
  have "(fst p, snd p) \<in> set (gi_points (fst (ps ! a)) (snd (ps ! a)) (rs ! a)
      (fst (ps ! b)) (snd (ps ! b)) (rs ! b))"
    using assms by (simp add: cpts_def)
  from gi_points_on_circles[OF this] show ?thesis by (simp add: on_circle_def)
qed

lemma cpts_in_discs:
  assumes "p \<in> set (cpts ps rs a b)"
  shows "in_disc p (ps ! a) (rs ! a)" "in_disc p (ps ! b) (rs ! b)"
  using cpts_on_circles[OF assms] by (simp_all add: on_circle_in_disc)

lemma in_disc_centre: "in_disc c c r"
  by (simp add: in_disc_def)

lemma inside_all_contains:
  assumes d: "d \<in> set cells"
    and ins: "\<forall>y \<in> set cells. y \<noteq> d \<longrightarrow> cdist (ps ! d) (ps ! y) \<le> rs ! y - rs ! d"
  shows "contains_all ps rs cells (smallest_of rs cells)"
proof -
  let ?sm = "smallest_of rs cells"
  have ne: "cells \<noteq> []" using d by auto
  have sm: "?sm \<in> set cells" by (rule smallest_of_mem[OF ne])
  have le: "rs ! ?sm \<le> rs ! d" by (rule smallest_of_le[OF d])
  show ?thesis
  proof (cases "?sm = d")
    case True
    show ?thesis
      unfolding contains_all_def True
    proof (intro ballI)
      fix c assume "c \<in> set cells"
      then show "c = d \<or> cdist (ps ! c) (ps ! d) \<le> \<bar>rs ! c - rs ! d\<bar>"
        using ins by (auto simp: cdist_sym)
    qed
  next
    case False
    from ins sm False have "cdist (ps ! d) (ps ! ?sm) \<le> rs ! ?sm - rs ! d" by blast
    then have z: "cdist (ps ! d) (ps ! ?sm) = 0" and req: "rs ! ?sm = rs ! d"
      using le cdist_nonneg[of "ps ! d" "ps ! ?sm"] by linarith+
    then have peq: "ps ! ?sm = ps ! d" by (simp add: cdist_zero_iff)
    show ?thesis
      unfolding contains_all_def
    proof (intro ballI)
      fix c assume c: "c \<in> set cells"
      show "c = ?sm \<or> cdist (ps ! c) (ps ! ?sm) \<le> \<bar>rs ! c - rs ! ?sm\<bar>"
      proof (cases "c = d")
        case True
        then show ?thesis using z by (simp add: cdist_sym)
      next
        case False
        then have "cdist (ps ! d) (ps ! c) \<le> rs ! c - rs ! d" using ins c by blast
        then have "cdist (ps ! c) (ps ! d) \<le> \<bar>rs ! c - rs ! d\<bar>"
          unfolding cdist_sym[of "ps ! c"] by linarith
        then show ?thesis using peq req by simp
      qed
    qed
  qed
qed

lemma contains_all_centre:
  assumes ca: "contains_all ps rs cells sm" and sm: "sm = smallest_of rs cells"
    and rad: "\<forall>c \<in> set cells. 0 \<le> rs ! c" and c: "c \<in> set cells"
  shows "in_disc (ps ! sm) (ps ! c) (rs ! c)"
proof (cases "c = sm")
  case True
  then show ?thesis by (simp add: in_disc_centre)
next
  case False
  have ne: "cells \<noteq> []" using c by auto
  have "rs ! sm \<le> rs ! c" unfolding sm by (rule smallest_of_le[OF c])
  moreover have "0 \<le> rs ! sm" using rad smallest_of_mem[OF ne] sm by blast
  moreover have "cdist (ps ! c) (ps ! sm) \<le> \<bar>rs ! c - rs ! sm\<bar>"
    using ca c False by (auto simp: contains_all_def)
  ultimately have "cdist (ps ! c) (ps ! sm) \<le> rs ! c" by linarith
  then show ?thesis using rad c by (simp add: in_disc_iff)
qed

lemma verify_p_sound:
  assumes rad: "\<forall>c \<in> set cells. 0 \<le> rs ! c" and len: "3 \<le> length cells"
    and mv: "memo_valid ps rs memo"
    and v: "verify_p ps rs memo cells = Some w"
  shows "\<forall>c \<in> set cells. in_disc w (ps ! c) (rs ! c)"
proof (cases "contains_all ps rs cells (smallest_of rs cells)")
  case True
  then have "w = ps ! smallest_of rs cells" using v by (simp add: verify_p_def)
  then show ?thesis using contains_all_centre[OF True refl rad] by blast
next
  case nca: False
  have ne: "cells \<noteq> []" using len by auto
  have bl: "set cells = insert (last cells) (set (butlast cells))"
    using ne by (metis append_butlast_last_id list.simps(15) set_append Un_insert_right
        sup_bot.right_neutral rotate1.simps(2) set_rotate1)
  show ?thesis
  proof (cases "shortcut_p ps rs memo cells")
    case (Some p)
    then have wp: "p = w" using v nca by (simp add: verify_p_def)
    show ?thesis
    proof (cases "length (butlast cells) = 2")
      case True
      then have l3: "length cells = 3" by simp
      then obtain a b c where abc: "cells = [a, b, c]"
        by (cases cells; cases "tl cells"; cases "tl (tl cells)") auto
      from Some True have "firstP (\<lambda>p. if in_disc p (ps ! last cells) (rs ! last cells) then Some p else None)
          (cpts ps rs (cells ! 0) (cells ! 1)) = Some w"
        by (simp add: shortcut_p_def Let_def wp)
      from firstP_Some[OF this] have "w \<in> set (cpts ps rs a b)" "in_disc w (ps ! c) (rs ! c)"
        by (auto simp: abc split: if_splits)
      then show ?thesis using cpts_in_discs[of w ps rs a b] by (simp add: abc)
    next
      case False
      then have gt: "length (butlast cells) > 2" using len by simp
      with Some False obtain w' where w': "memo (set (butlast cells)) = Some w'"
        by (auto simp: shortcut_p_def Let_def split: option.splits)
      with Some False gt have "w' = w" "in_disc w (ps ! last cells) (rs ! last cells)"
        by (auto simp: shortcut_p_def Let_def wp split: if_splits)
      moreover have "\<forall>c \<in> set (butlast cells). in_disc w' (ps ! c) (rs ! c)"
        using mv w' unfolding memo_valid_def by blast
      ultimately show ?thesis unfolding bl by simp
    qed
  next
    case None
    then have "fallback_p ps rs cells = Some w" using v nca by (simp add: verify_p_def)
    from fallback_p_Some[OF this] obtain j where j: "j < length cells - 1"
      "w \<in> set (cpts ps rs (cells ! (length cells - 1)) (cells ! j))"
      "in_others ps rs cells (length cells - 1) j w" by blast
    show ?thesis
    proof
      fix c assume "c \<in> set cells"
      then obtain k where k: "k < length cells" "c = cells ! k" by (auto simp: in_set_conv_nth)
      show "in_disc w (ps ! c) (rs ! c)"
        using cpts_in_discs[OF j(2)] j(3) k by (auto simp: in_others_def)
    qed
  qed
qed

lemma two_discs:
  assumes ra: "0 \<le> ra" and rb: "0 \<le> rb"
    and q: "in_disc q ca ra" "in_disc q cb rb"
  shows "cdist ca cb \<le> rb - ra \<or> cdist cb ca \<le> ra - rb
       \<or> (\<exists>p. p \<in> set (gi_points (fst ca) (snd ca) ra (fst cb) (snd cb) rb))"
proof (cases "cdist cb ca \<le> ra - rb")
  case True
  then show ?thesis by blast
next
  case False
  from far_point[OF ra rb False] obtain w where w: "on_circle w cb rb" "\<not> in_disc w ca ra" by blast
  have "(\<forall>y \<in> set [(cb, rb)]. cdist ca (fst y) \<le> snd y - ra)
       \<or> (\<exists>x \<in> set [(cb, rb)]. \<exists>p \<in> set (gi_points (fst ca) (snd ca) ra (fst (fst x)) (snd (fst x)) (snd x)).
            \<forall>y \<in> set [(cb, rb)]. in_disc p (fst y) (snd y))"
    by (rule boundary_crossing[where q = q and w = w])
       (use ra rb q w in \<open>simp_all add: on_circle_in_disc\<close>)
  then show ?thesis by auto
qed

lemma verify_p_complete:
  assumes rad: "\<forall>c \<in> set cells. 0 \<le> rs ! c" and len: "3 \<le> length cells"
    and mv: "memo_valid ps rs memo"
    and mh: "length cells > 3 \<Longrightarrow> memo (set (butlast cells)) \<noteq> None"
    and q: "\<forall>c \<in> set cells. in_disc q (ps ! c) (rs ! c)"
  shows "verify_p ps rs memo cells \<noteq> None"
proof (rule ccontr)
  assume "\<not> verify_p ps rs memo cells \<noteq> None"
  then have vn: "verify_p ps rs memo cells = None" by blast
  let ?sm = "smallest_of rs cells"
  have nca: "\<not> contains_all ps rs cells ?sm"
    using vn by (auto simp: verify_p_def Let_def)
  have sn: "shortcut_p ps rs memo cells = None"
    using vn nca by (auto simp: verify_p_def Let_def split: option.splits)
  have fn: "fallback_p ps rs cells = None"
    using vn nca sn by (simp add: verify_p_def Let_def)
  have ne: "cells \<noteq> []" using len by auto
  let ?i = "length cells - 1"
  let ?d = "last cells"
  have dl: "?d = cells ! ?i" using ne by (simp add: last_conv_nth)
  have dm: "?d \<in> set cells" using ne by simp
  have bsub: "set (butlast cells) \<subseteq> set cells" by (meson in_set_butlastD subsetI)
  define ys where "ys = map (\<lambda>c. (ps ! c, rs ! c)) (butlast cells)"
  have ysr: "\<forall>y \<in> set ys. 0 \<le> snd y" using rad bsub by (auto simp: ys_def)
  have ysq: "\<forall>y \<in> set ys. in_disc q (fst y) (snd y)" using q bsub by (auto simp: ys_def)
  have bl: "set cells = insert (last cells) (set (butlast cells))"
    using ne by (metis append_butlast_last_id list.simps(15) set_append Un_insert_right
        sup_bot.right_neutral rotate1.simps(2) set_rotate1)
  have ex_w: "\<exists>w. \<not> in_disc w (ps ! ?d) (rs ! ?d) \<and> (\<forall>y \<in> set ys. in_disc w (fst y) (snd y))"
  proof (cases "length cells > 3")
    case True
    from mh[OF True] obtain w where w: "memo (set (butlast cells)) = Some w" by auto
    have "\<not> in_disc w (ps ! ?d) (rs ! ?d)"
      using sn w True by (auto simp: shortcut_p_def Let_def split: if_splits)
    moreover have "\<forall>c \<in> set (butlast cells). in_disc w (ps ! c) (rs ! c)"
      using mv w unfolding memo_valid_def by blast
    ultimately show ?thesis by (intro exI[of _ w]) (auto simp: ys_def)
  next
    case False
    then have l3: "length cells = 3" using len by simp
    then obtain a b c where abc: "cells = [a, b, c]"
      by (cases cells; cases "tl cells"; cases "tl (tl cells)") auto
    have ys2: "ys = [(ps ! a, rs ! a), (ps ! b, rs ! b)]" by (simp add: ys_def abc)
    have dc: "?d = c" by (simp add: abc)
    have nocross: "\<forall>p \<in> set (cpts ps rs a b). \<not> in_disc p (ps ! c) (rs ! c)"
      using sn by (auto simp: shortcut_p_def Let_def abc firstP_None split: if_splits)
    have rabc: "0 \<le> rs ! a" "0 \<le> rs ! b" "0 \<le> rs ! c" using rad by (simp_all add: abc)
    have qab: "in_disc q (ps ! a) (rs ! a)" "in_disc q (ps ! b) (rs ! b)" using q by (simp_all add: abc)
    have one: "\<exists>w. \<not> in_disc w (ps ! c) (rs ! c) \<and> in_disc w (ps ! x) (rs ! x) \<and> in_disc w (ps ! y) (rs ! y)"
      if xy: "cdist (ps ! x) (ps ! y) \<le> rs ! y - rs ! x" "set cells = {x, y, c}" "0 \<le> rs ! x" for x y
    proof (cases "cdist (ps ! x) (ps ! c) \<le> rs ! c - rs ! x")
      case True
      have "contains_all ps rs cells ?sm"
      proof (rule inside_all_contains[where d = x])
        show "x \<in> set cells" using xy(2) by simp
        show "\<forall>z \<in> set cells. z \<noteq> x \<longrightarrow> cdist (ps ! x) (ps ! z) \<le> rs ! z - rs ! x"
          using xy(1,2) True by auto
      qed
      then show ?thesis using nca by simp
    next
      case False
      from far_point[OF rabc(3) xy(3) False] obtain w
        where w: "on_circle w (ps ! x) (rs ! x)" "\<not> in_disc w (ps ! c) (rs ! c)" by blast
      have "in_disc w (ps ! x) (rs ! x)" using w(1) by (rule on_circle_in_disc)
      moreover from this have "in_disc w (ps ! y) (rs ! y)"
        by (rule disc_inside_subset[OF xy(3) xy(1)])
      ultimately show ?thesis using w(2) by blast
    qed
    from two_discs[OF rabc(1,2) qab]
    consider "cdist (ps ! a) (ps ! b) \<le> rs ! b - rs ! a" | "cdist (ps ! b) (ps ! a) \<le> rs ! a - rs ! b"
      | p where "p \<in> set (cpts ps rs a b)"
      by (auto simp: cpts_def)
    then have "\<exists>w. \<not> in_disc w (ps ! c) (rs ! c) \<and> in_disc w (ps ! a) (rs ! a) \<and> in_disc w (ps ! b) (rs ! b)"
    proof cases
      case 1
      from one[OF 1 _ rabc(1)] show ?thesis by (auto simp: abc)
    next
      case 2
      from one[OF 2 _ rabc(2)] show ?thesis by (auto simp: abc)
    next
      case 3
      then show ?thesis using nocross cpts_in_discs[OF 3] by blast
    qed
    then obtain w where "\<not> in_disc w (ps ! c) (rs ! c)" "in_disc w (ps ! a) (rs ! a)"
      "in_disc w (ps ! b) (rs ! b)" by blast
    then show ?thesis by (intro exI[of _ w]) (simp add: ys2 dc)
  qed
  then obtain w where w: "\<not> in_disc w (ps ! ?d) (rs ! ?d)" "\<forall>y \<in> set ys. in_disc w (fst y) (snd y)"
    by blast
  have "(\<forall>y \<in> set ys. cdist (ps ! ?d) (fst y) \<le> snd y - rs ! ?d)
       \<or> (\<exists>x \<in> set ys. \<exists>p \<in> set (gi_points (fst (ps ! ?d)) (snd (ps ! ?d)) (rs ! ?d)
               (fst (fst x)) (snd (fst x)) (snd x)).
            \<forall>y \<in> set ys. in_disc p (fst y) (snd y))"
    by (rule boundary_crossing[where q = q and w = w]) (use rad q dm ysr ysq w in auto)
  then show False
  proof
    assume "\<forall>y \<in> set ys. cdist (ps ! ?d) (fst y) \<le> snd y - rs ! ?d"
    then have "\<forall>y \<in> set cells. y \<noteq> ?d \<longrightarrow> cdist (ps ! ?d) (ps ! y) \<le> rs ! y - rs ! ?d"
      unfolding bl by (auto simp: ys_def)
    from inside_all_contains[OF dm this] nca show False by simp
  next
    assume "\<exists>x \<in> set ys. \<exists>p \<in> set (gi_points (fst (ps ! ?d)) (snd (ps ! ?d)) (rs ! ?d)
               (fst (fst x)) (snd (fst x)) (snd x)).
            \<forall>y \<in> set ys. in_disc p (fst y) (snd y)"
    then obtain x p where x: "x \<in> set (butlast cells)" and p: "p \<in> set (cpts ps rs ?d x)"
      and pall: "\<forall>y \<in> set (butlast cells). in_disc p (ps ! y) (rs ! y)"
      by (auto simp: ys_def cpts_def)
    from x obtain j where j: "j < length (butlast cells)" "x = butlast cells ! j"
      by (auto simp: in_set_conv_nth)
    then have j': "j < ?i" "x = cells ! j" by (simp_all add: nth_butlast)
    have "in_others ps rs cells ?i j p"
      unfolding in_others_def
    proof (intro allI impI)
      fix k assume k: "k < length cells"
      show "k = ?i \<or> k = j \<or> in_disc p (ps ! (cells ! k)) (rs ! (cells ! k))"
      proof (cases "k = ?i")
        case True
        then show ?thesis by simp
      next
        case False
        then have "k < length (butlast cells)" using k by simp
        then have "cells ! k \<in> set (butlast cells)"
          by (metis nth_butlast nth_mem)
        then show ?thesis using pall by blast
      qed
    qed
    then have "fallback_p ps rs cells \<noteq> None"
      unfolding fallback_p_None using j'(1) p by (auto simp: dl j'(2))
    then show False using fn by simp
  qed
qed

lemma cpts_sym:
  assumes rad: "0 \<le> rs ! a" "0 \<le> rs ! b" and p: "p \<in> set (cpts ps rs a b)"
  shows "p \<in> set (cpts ps rs b a)"
proof -
  have on: "on_circle p (ps ! a) (rs ! a)" "on_circle p (ps ! b) (rs ! b)"
    using cpts_on_circles[OF p] by simp_all
  have "sqrt ((fst (ps ! b) - fst (ps ! a))\<^sup>2 + (snd (ps ! b) - snd (ps ! a))\<^sup>2) \<noteq> 0"
    using p by (auto simp: cpts_def gi_points_def Let_def split: if_splits)
  then have nc: "\<not> (fst (ps ! b) = fst (ps ! a) \<and> snd (ps ! b) = snd (ps ! a) \<and> rs ! b = rs ! a)"
    by auto
  have "(fst p, snd p) \<in> set (gi_points (fst (ps ! b)) (snd (ps ! b)) (rs ! b)
      (fst (ps ! a)) (snd (ps ! a)) (rs ! a))"
    by (rule on_circles_in_gi_points) (use on rad nc in \<open>simp_all add: on_circle_def\<close>)
  then show ?thesis by (simp add: cpts_def)
qed

lemma pair_or_inside:
  assumes ne: "cells \<noteq> []" and rad: "\<forall>c \<in> set cells. 0 \<le> rs ! c"
    and q: "\<forall>c \<in> set cells. in_disc q (ps ! c) (rs ! c)"
  shows "(\<exists>d \<in> set cells. \<forall>y \<in> set cells. y \<noteq> d \<longrightarrow> cdist (ps ! d) (ps ! y) \<le> rs ! y - rs ! d)
       \<or> (\<exists>a \<in> set cells. \<exists>b \<in> set cells. \<exists>p \<in> set (cpts ps rs a b).
            \<forall>c \<in> set cells. in_disc p (ps ! c) (rs ! c))"
  using assms
proof (induction cells)
  case Nil
  then show ?case by simp
next
  case (Cons d rest)
  show ?case
  proof (cases "rest = []")
    case True
    then show ?thesis by simp
  next
    case False
    define ys where "ys = map (\<lambda>c. (ps ! c, rs ! c)) rest"
    have rd: "0 \<le> rs ! d" using Cons.prems(2) by simp
    have ysr: "\<forall>y \<in> set ys. 0 \<le> snd y" using Cons.prems(2) by (auto simp: ys_def)
    have ysq: "\<forall>y \<in> set ys. in_disc q (fst y) (snd y)" using Cons.prems(3) by (auto simp: ys_def)
    have qd: "in_disc q (ps ! d) (rs ! d)" using Cons.prems(3) by simp
    have cross: ?thesis
      if w: "\<not> in_disc w (ps ! d) (rs ! d)" "\<forall>c \<in> set rest. in_disc w (ps ! c) (rs ! c)" for w
    proof -
      have "(\<forall>y \<in> set ys. cdist (ps ! d) (fst y) \<le> snd y - rs ! d)
         \<or> (\<exists>x \<in> set ys. \<exists>p \<in> set (gi_points (fst (ps ! d)) (snd (ps ! d)) (rs ! d)
               (fst (fst x)) (snd (fst x)) (snd x)).
            \<forall>y \<in> set ys. in_disc p (fst y) (snd y))"
        by (rule boundary_crossing[where q = q and w = w])
           (use rd ysr qd ysq w in \<open>auto simp: ys_def\<close>)
      then show ?thesis
      proof
        assume "\<forall>y \<in> set ys. cdist (ps ! d) (fst y) \<le> snd y - rs ! d"
        then have "\<forall>y \<in> set (d # rest). y \<noteq> d \<longrightarrow> cdist (ps ! d) (ps ! y) \<le> rs ! y - rs ! d"
          by (auto simp: ys_def)
        then show ?thesis by (intro disjI1 bexI[of _ d]) simp_all
      next
        assume "\<exists>x \<in> set ys. \<exists>p \<in> set (gi_points (fst (ps ! d)) (snd (ps ! d)) (rs ! d)
               (fst (fst x)) (snd (fst x)) (snd x)).
            \<forall>y \<in> set ys. in_disc p (fst y) (snd y)"
        then obtain x p where x: "x \<in> set rest" and p: "p \<in> set (cpts ps rs d x)"
          and pall: "\<forall>y \<in> set rest. in_disc p (ps ! y) (rs ! y)"
          by (auto simp: ys_def cpts_def)
        have "in_disc p (ps ! d) (rs ! d)" using cpts_in_discs(1)[OF p] .
        then have "\<forall>c \<in> set (d # rest). in_disc p (ps ! c) (rs ! c)" using pall by simp
        then show ?thesis using x p by (intro disjI2 bexI[of _ d] bexI[of _ x] bexI[of _ p]) simp_all
      qed
    qed
    have "(\<exists>e \<in> set rest. \<forall>y \<in> set rest. y \<noteq> e \<longrightarrow> cdist (ps ! e) (ps ! y) \<le> rs ! y - rs ! e)
       \<or> (\<exists>a \<in> set rest. \<exists>b \<in> set rest. \<exists>p \<in> set (cpts ps rs a b).
            \<forall>c \<in> set rest. in_disc p (ps ! c) (rs ! c))"
      using Cons.IH[OF False] Cons.prems(2,3) by simp
    then show ?thesis
    proof
      assume "\<exists>e \<in> set rest. \<forall>y \<in> set rest. y \<noteq> e \<longrightarrow> cdist (ps ! e) (ps ! y) \<le> rs ! y - rs ! e"
      then obtain e where e: "e \<in> set rest"
        "\<forall>y \<in> set rest. y \<noteq> e \<longrightarrow> cdist (ps ! e) (ps ! y) \<le> rs ! y - rs ! e" by blast
      have re: "0 \<le> rs ! e" using Cons.prems(2) e(1) by simp
      show ?thesis
      proof (cases "e = d \<or> cdist (ps ! e) (ps ! d) \<le> rs ! d - rs ! e")
        case True
        then have "\<forall>y \<in> set (d # rest). y \<noteq> e \<longrightarrow> cdist (ps ! e) (ps ! y) \<le> rs ! y - rs ! e"
          using e(2) by auto
        then show ?thesis using e(1) by (intro disjI1 bexI[of _ e]) simp_all
      next
        case False
        then have "\<not> cdist (ps ! e) (ps ! d) \<le> rs ! d - rs ! e" by simp
        from far_point[OF rd re this] obtain w
          where w: "on_circle w (ps ! e) (rs ! e)" "\<not> in_disc w (ps ! d) (rs ! d)" by blast
        have we: "in_disc w (ps ! e) (rs ! e)" using w(1) by (rule on_circle_in_disc)
        have "\<forall>c \<in> set rest. in_disc w (ps ! c) (rs ! c)"
        proof
          fix c assume c: "c \<in> set rest"
          show "in_disc w (ps ! c) (rs ! c)"
          proof (cases "c = e")
            case True
            then show ?thesis using we by simp
          next
            case False
            then have "cdist (ps ! e) (ps ! c) \<le> rs ! c - rs ! e" using e(2) c by blast
            from disc_inside_subset[OF re this we] show ?thesis .
          qed
        qed
        from cross[OF w(2) this] show ?thesis .
      qed
    next
      assume "\<exists>a \<in> set rest. \<exists>b \<in> set rest. \<exists>p \<in> set (cpts ps rs a b).
            \<forall>c \<in> set rest. in_disc p (ps ! c) (rs ! c)"
      then obtain a b p where ab: "a \<in> set rest" "b \<in> set rest" "p \<in> set (cpts ps rs a b)"
        and pall: "\<forall>c \<in> set rest. in_disc p (ps ! c) (rs ! c)" by blast
      show ?thesis
      proof (cases "in_disc p (ps ! d) (rs ! d)")
        case True
        then have "\<forall>c \<in> set (d # rest). in_disc p (ps ! c) (rs ! c)" using pall by simp
        then show ?thesis using ab by (intro disjI2 bexI[of _ a] bexI[of _ b] bexI[of _ p]) simp_all
      next
        case False
        from cross[OF False pall] show ?thesis .
      qed
    qed
  qed
qed

lemma verify_LE_p_sound:
  assumes rad: "\<forall>c \<in> set cells. 0 \<le> rs ! c" and ne: "cells \<noteq> []"
    and v: "verify_LE_p ps rs cells"
  shows "common_point ps rs (set cells)"
proof (cases "contains_all ps rs cells (smallest_of rs cells)")
  case True
  from contains_all_centre[OF True refl rad] show ?thesis
    unfolding common_point_def by blast
next
  case False
  with v obtain l p where l: "l \<in> set (combinations cells 2)"
    and p: "p \<in> set (cpts ps rs (l ! 0) (l ! 1))"
    and o: "\<forall>c \<in> set cells. c = l ! 0 \<or> c = l ! 1 \<or> in_disc p (ps ! c) (rs ! c)"
    unfolding verify_LE_p_def by blast
  have "\<forall>c \<in> set cells. in_disc p (ps ! c) (rs ! c)"
    using o cpts_in_discs[OF p] by auto
  then show ?thesis unfolding common_point_def by blast
qed

lemma verify_LE_p_complete:
  assumes rad: "\<forall>c \<in> set cells. 0 \<le> rs ! c" and ne: "cells \<noteq> []"
    and cp: "common_point ps rs (set cells)"
  shows "verify_LE_p ps rs cells"
proof (cases "contains_all ps rs cells (smallest_of rs cells)")
  case True
  then show ?thesis by (simp add: verify_LE_p_def)
next
  case False
  from cp obtain q where q: "\<forall>c \<in> set cells. in_disc q (ps ! c) (rs ! c)"
    unfolding common_point_def by blast
  from pair_or_inside[OF ne rad q] False inside_all_contains[of _ cells ps rs]
  obtain a b p where ab: "a \<in> set cells" "b \<in> set cells" "p \<in> set (cpts ps rs a b)"
    and pall: "\<forall>c \<in> set cells. in_disc p (ps ! c) (rs ! c)" by blast
  have pba: "p \<in> set (cpts ps rs b a)"
    using cpts_sym[OF _ _ ab(3)] rad ab(1,2) by blast
  from ab obtain i j where ij: "i < length cells" "a = cells ! i" "j < length cells" "b = cells ! j"
    by (auto simp: in_set_conv_nth)
  have "a \<noteq> b"
  proof
    assume "a = b"
    then have "sqrt ((fst (ps ! b) - fst (ps ! a))\<^sup>2 + (snd (ps ! b) - snd (ps ! a))\<^sup>2) = 0" by simp
    then show False using ab(3) by (auto simp: cpts_def gi_points_def Let_def split: if_splits)
  qed
  then have "i \<noteq> j" using ij by auto
  then consider "i < j" | "j < i" by linarith
  then have "\<exists>l \<in> set (combinations cells 2). p \<in> set (cpts ps rs (l ! 0) (l ! 1))"
  proof cases
    case 1
    then have "[a, b] \<in> set (combinations cells 2)"
      unfolding combinations_2_set using ij by blast
    then show ?thesis using ab(3) by (intro bexI[of _ "[a, b]"]) simp_all
  next
    case 2
    then have "[b, a] \<in> set (combinations cells 2)"
      unfolding combinations_2_set using ij by blast
    then show ?thesis using pba by (intro bexI[of _ "[b, a]"]) simp_all
  qed
  then show ?thesis using pall unfolding verify_LE_p_def by blast
qed

lemma overlap_if_common:
  assumes rad: "0 \<le> rs ! a" "0 \<le> rs ! b"
    and p: "in_disc p (ps ! a) (rs ! a)" "in_disc p (ps ! b) (rs ! b)"
  shows "overlap ps rs a b"
proof -
  have "cdist (ps ! a) p \<le> rs ! a" "cdist (ps ! b) p \<le> rs ! b"
    using p rad by (simp_all add: in_disc_iff)
  moreover have "cdist (ps ! a) (ps ! b) \<le> cdist (ps ! a) p + cdist p (ps ! b)"
    by (rule cdist_triangle)
  ultimately show ?thesis by (simp add: overlap_def cdist_sym not_less)
qed

lemma common_if_overlap:
  assumes rad: "0 \<le> rs ! a" "0 \<le> rs ! b" and ov: "overlap ps rs a b"
  shows "\<exists>p. in_disc p (ps ! a) (rs ! a) \<and> in_disc p (ps ! b) (rs ! b)"
proof -
  define dl where "dl = cdist (ps ! a) (ps ! b)"
  have dl: "0 \<le> dl" "dl \<le> rs ! a + rs ! b" using ov by (simp_all add: dl_def overlap_def)
  have d2: "dl\<^sup>2 = (fst (ps ! a) - fst (ps ! b))\<^sup>2 + (snd (ps ! a) - snd (ps ! b))\<^sup>2"
    by (simp add: dl_def cdist_sq)
  show ?thesis
  proof (cases "rs ! a + rs ! b = 0")
    case True
    then have "dl = 0" using dl by simp
    then have "ps ! a = ps ! b" by (simp add: dl_def cdist_zero_iff)
    then have "in_disc (ps ! a) (ps ! a) (rs ! a) \<and> in_disc (ps ! a) (ps ! b) (rs ! b)"
      by (simp add: in_disc_centre)
    then show ?thesis by blast
  next
    case False
    define s where "s = rs ! a + rs ! b"
    have spos: "0 < s" using False rad by (simp add: s_def)
    define t where "t = rs ! a / s"
    define p where "p = (fst (ps ! a) + t * (fst (ps ! b) - fst (ps ! a)),
                         snd (ps ! a) + t * (snd (ps ! b) - snd (ps ! a)))"
    have t01: "0 \<le> t" "t \<le> 1" using rad spos by (simp_all add: t_def s_def)
    have t1: "1 - t = rs ! b / s" using spos by (simp add: t_def s_def field_simps)
    have "t * dl \<le> t * s" using dl(2) t01(1) unfolding s_def by (rule mult_left_mono)
    also have "t * s = rs ! a" using spos by (simp add: t_def)
    finally have ta: "t * dl \<le> rs ! a" .
    have "(1 - t) * dl \<le> (1 - t) * s" using dl(2) t01(2) unfolding s_def by (intro mult_left_mono) simp_all
    also have "(1 - t) * s = rs ! b" using spos by (simp add: t1)
    finally have tb: "(1 - t) * dl \<le> rs ! b" .
    have "(fst (ps ! a) - fst p)\<^sup>2 + (snd (ps ! a) - snd p)\<^sup>2 = (t * dl)\<^sup>2"
      unfolding power_mult_distrib d2 by (simp add: p_def power2_eq_square algebra_simps)
    also have "\<dots> \<le> (rs ! a)\<^sup>2" using ta t01 dl(1) by (intro power_mono) simp_all
    finally have ia: "in_disc p (ps ! a) (rs ! a)" by (simp add: in_disc_def)
    have "(fst (ps ! b) - fst p)\<^sup>2 + (snd (ps ! b) - snd p)\<^sup>2 = ((1 - t) * dl)\<^sup>2"
      unfolding power_mult_distrib d2 by (simp add: p_def power2_eq_square algebra_simps)
    also have "\<dots> \<le> (rs ! b)\<^sup>2" using tb t01 dl(1) by (intro power_mono) simp_all
    finally have "in_disc p (ps ! b) (rs ! b)" by (simp add: in_disc_def)
    then show ?thesis using ia by blast
  qed
qed

section \<open>The levels are the simplices of the complex\<close>

lemma common_point_mono: "common_point ps rs T \<Longrightarrow> U \<subseteq> T \<Longrightarrow> common_point ps rs U"
  unfolding common_point_def by blast

lemma nb_sem_ok: "nb_sem ps rs nb \<Longrightarrow> nb_ok (length ps) nb"
  by (auto simp: nb_sem_def nb_ok_def)

lemma sim1_nb_sem:
  assumes "sim1_inv ps rs (length ps) {(i, j). i < j \<and> j < length ps} (nb, S1)"
  shows "nb_sem ps rs nb"
  using sim1_inv_final(1-3)[OF assms] by (auto simp: nb_sem_def)

lemma level0_sem: "set ` set (sim0 (length ps)) = cech_level ps rs 0"
proof (intro set_eqI iffI)
  fix T assume "T \<in> set ` set (sim0 (length ps))"
  then obtain i where i: "i < length ps" "T = {i}" by (auto simp: sim0_def)
  have "common_point ps rs {i}"
    unfolding common_point_def by (intro exI[of _ "ps ! i"]) (simp add: in_disc_centre)
  then show "T \<in> cech_level ps rs 0" using i by (simp add: cech_level_def)
next
  fix T assume "T \<in> cech_level ps rs 0"
  then have "card T = 1" "T \<subseteq> {..<length ps}" by (simp_all add: cech_level_def)
  from this(1) obtain i where i: "T = {i}" by (rule card_1_singletonE)
  then have "i < length ps" using \<open>T \<subseteq> {..<length ps}\<close> by simp
  with i have "T = {i}" "i < length ps" by simp_all
  then show "T \<in> set ` set (sim0 (length ps))"
    by (auto simp: sim0_def image_iff intro!: bexI[of _ "[i]"])
qed

lemma level1_sem:
  assumes inv: "sim1_inv ps rs (length ps) {(i, j). i < j \<and> j < length ps} (nb, S1)"
    and rad: "\<forall>i < length ps. 0 \<le> rs ! i"
  shows "set ` set S1 = cech_level ps rs 1"
proof (intro set_eqI iffI)
  fix T assume "T \<in> set ` set S1"
  then obtain a b where ab: "a < b" "b < length ps" "overlap ps rs a b" "T = {a, b}"
    using sim1_inv_final(4)[OF inv] by auto
  have "0 \<le> rs ! a" "0 \<le> rs ! b" using rad ab(1,2) by simp_all
  from common_if_overlap[OF this ab(3)] have "common_point ps rs {a, b}"
    unfolding common_point_def by auto
  then show "T \<in> cech_level ps rs 1" using ab by (simp add: cech_level_def)
next
  fix T assume "T \<in> cech_level ps rs 1"
  then have T: "card T = 2" "T \<subseteq> {..<length ps}" "common_point ps rs T"
    by (simp_all add: cech_level_def)
  from T(1) obtain x y where xy: "T = {x, y}" "x \<noteq> y" by (auto simp: card_2_iff)
  define a where "a = min x y"
  define b where "b = max x y"
  have ab: "T = {a, b}" "a < b" using xy by (auto simp: a_def b_def min_def max_def)
  have lt: "a < length ps" "b < length ps" using T(2) ab(1) by auto
  from T(3) obtain p where "in_disc p (ps ! a) (rs ! a)" "in_disc p (ps ! b) (rs ! b)"
    unfolding common_point_def ab(1) by auto
  then have "overlap ps rs a b" using rad lt by (intro overlap_if_common) simp_all
  then have "[a, b] \<in> set S1" using sim1_inv_final(4)[OF inv] ab(2) lt by auto
  then show "T \<in> set ` set S1" using ab(1) by (auto simp: image_iff intro!: bexI[of _ "[a, b]"])
qed

lemma foldl_inv_prefix:
  assumes "I pre s"
    and "\<And>s x pre' suf. pre @ xs = pre' @ x # suf \<Longrightarrow> length pre \<le> length pre' \<Longrightarrow> I pre' s
            \<Longrightarrow> I (pre' @ [x]) (g s x)"
  shows "I (pre @ xs) (foldl g s xs)"
  using assms
proof (induction xs arbitrary: s pre)
  case Nil
  then show ?case by simp
next
  case (Cons x xs)
  have s1: "I (pre @ [x]) (g s x)" using Cons.prems(2)[of pre x xs s] Cons.prems(1) by simp
  have "I ((pre @ [x]) @ xs) (foldl g (g s x) xs)"
  proof (rule Cons.IH[OF s1])
    fix s' y pre' suf
    assume "(pre @ [x]) @ xs = pre' @ y # suf" "length (pre @ [x]) \<le> length pre'" "I pre' s'"
    then show "I (pre' @ [y]) (g s' y)"
      using Cons.prems(2)[of pre' y suf s'] by simp
  qed
  then show ?case by simp
qed

lemma cands_of_complete:
  assumes nb: "nb_sem ps rs nb" and rad: "\<forall>i < length ps. 0 \<le> rs ! i"
    and k: "1 \<le> k"
    and prev: "cech_level ps rs (k - 1) \<subseteq> set ` set level"
    and lvok: "\<forall>s \<in> set level. simplex_ok (length ps) (k - 1) s"
    and T: "T \<in> cech_level ps rs k"
  shows "\<exists>cand \<in> set (cands_of nb level). set cand = T"
proof -
  from T have Tn: "T \<subseteq> {..<length ps}" and Tc: "card T = k + 1" and Tp: "common_point ps rs T"
    by (simp_all add: cech_level_def)
  have fin: "finite T" using Tc by (intro card_ge_0_finite) simp
  have "T \<noteq> {}" using Tc by auto
  then obtain c where c: "c \<in> T" by blast
  define T' where "T' = T - {c}"
  have "card T' = k" using Tc c fin by (simp add: T'_def)
  then have "T' \<in> cech_level ps rs (k - 1)"
    using Tn common_point_mono[OF Tp, of T'] k by (auto simp: T'_def cech_level_def)
  then obtain s where s: "s \<in> set level" "set s = T'" using prev by auto
  have ne: "\<forall>s \<in> set level. s \<noteq> []" using lvok by (auto simp: simplex_ok_def)
  from Tp obtain p where p: "\<forall>x \<in> T. in_disc p (ps ! x) (rs ! x)"
    unfolding common_point_def by blast
  have "c \<in> set (nb ! i)" if "i \<in> set s" for i
  proof -
    have i: "i \<in> T" "i \<noteq> c" using that s(2) by (auto simp: T'_def)
    then have lt: "i < length ps" "c < length ps" using Tn c by auto
    have "overlap ps rs i c"
      using rad lt p i(1) c by (intro overlap_if_common[where p = p]) simp_all
    then show ?thesis using nb lt i(2) by (auto simp: nb_sem_def)
  qed
  moreover have "c \<notin> set s" using s(2) by (simp add: T'_def)
  ultimately have "s @ [c] \<in> set (cands_of nb level)"
    unfolding cands_of_iff[OF ne] using s(1) by blast
  moreover have "set (s @ [c]) = T" using s(2) c by (auto simp: T'_def)
  ultimately show ?thesis by blast
qed

lemma simk_level_p_sem:
  assumes len: "length ps \<le> length rs" and rad: "\<forall>i < length ps. 0 \<le> rs ! i"
    and nb: "nb_sem ps rs nb" and k: "2 \<le> k"
    and prev: "set ` set level = cech_level ps rs (k - 1)"
    and lvok: "\<forall>s \<in> set level. simplex_ok (length ps) (k - 1) s"
    and mv: "memo_valid ps rs memo"
    and mh: "3 \<le> k \<Longrightarrow> \<forall>s \<in> set level. memo (set s) \<noteq> None"
    and vk: "\<forall>T. ver T \<noteq> None \<longrightarrow> card T \<le> k"
    and fl: "foldl (simk_step_p ps rs) ([], memo, ver) (cands_of nb level) = (Sk, memo', ver')"
  shows "set ` set Sk = cech_level ps rs k \<and> memo_valid ps rs memo'
       \<and> (\<forall>T. ver' T \<noteq> None \<longrightarrow> card T \<le> k + 1)"
proof -
  let ?n = "length ps"
  let ?cands = "cands_of nb level"
  have nbo: "nb_ok ?n nb" by (rule nb_sem_ok[OF nb])
  have cok: "simplex_ok ?n k cand \<and> butlast cand \<in> set level" if "cand \<in> set ?cands" for cand
    using cands_of_simplex_ok[OF nbo lvok _ that] k by simp
  define I where "I pre st \<longleftrightarrow> (case st of (Sk, m, v) \<Rightarrow>
      memo_valid ps rs m \<and> dom memo \<subseteq> dom m
      \<and> set ` set Sk = {T \<in> set ` set pre. common_point ps rs T}
      \<and> (\<forall>T. v T \<noteq> None \<longleftrightarrow> ver T \<noteq> None \<or> T \<in> set ` set pre))"
    for pre :: "nat list list" and st :: "nat list list \<times> (nat set \<rightharpoonup> point) \<times> (nat set \<rightharpoonup> bool)"
  have "I ([] @ ?cands) (foldl (simk_step_p ps rs) ([], memo, ver) ?cands)"
  proof (rule foldl_inv_prefix)
    show "I [] ([], memo, ver)" using mv by (simp add: I_def)
  next
    fix st x pre' suf
    assume eq: "[] @ ?cands = pre' @ x # suf" and Ipre: "I pre' st"
    have xc: "x \<in> set ?cands" using eq by (metis append_Nil in_set_conv_decomp)
    obtain Sk m v where st: "st = (Sk, m, v)" by (cases st)
    from Ipre st have mvm: "memo_valid ps rs m" and dm: "dom memo \<subseteq> dom m"
      and sk: "set ` set Sk = {T \<in> set ` set pre'. common_point ps rs T}"
      and vv: "\<And>T. v T \<noteq> None \<longleftrightarrow> ver T \<noteq> None \<or> T \<in> set ` set pre'"
      by (simp_all add: I_def)
    have xok: "simplex_ok ?n k x" "butlast x \<in> set level" using cok[OF xc] by simp_all
    have cardx: "card (set x) = k + 1" using xok(1) by (simp add: simplex_ok_def distinct_card)
    have radx: "\<forall>c \<in> set x. 0 \<le> rs ! c" using xok(1) rad by (auto simp: simplex_ok_def)
    have l3: "3 \<le> length x" using xok(1) k by (simp add: simplex_ok_def)
    have mhx: "m (set (butlast x)) \<noteq> None" if "length x > 3"
    proof -
      have "3 \<le> k" using that xok(1) by (simp add: simplex_ok_def)
      from mh[OF this] xok(2) have "memo (set (butlast x)) \<noteq> None" by blast
      then show ?thesis using dm by blast
    qed
    show "I (pre' @ [x]) (simk_step_p ps rs st x)"
    proof (cases "v (set x) \<noteq> None")
      case True
      have "ver (set x) = None"
      proof (rule ccontr)
        assume "ver (set x) \<noteq> None"
        with vk have "card (set x) \<le> k" by blast
        with cardx show False by simp
      qed
      then have "set x \<in> set ` set pre'" using True vv by blast
      then have same: "set ` set (pre' @ [x]) = set ` set pre'" by auto
      have "simk_step_p ps rs st x = (Sk, m, v)" using True by (simp add: st simk_step_p_def)
      moreover have "I (pre' @ [x]) (Sk, m, v)"
        unfolding I_def prod.case same using mvm dm sk vv by blast
      ultimately show ?thesis by simp
    next
      case False
      then have vn: "v (set x) = None" by simp
      show ?thesis
      proof (cases "verify_p ps rs m x")
        case None
        have "\<not> common_point ps rs (set x)"
        proof
          assume "common_point ps rs (set x)"
          then obtain q where "\<forall>c \<in> set x. in_disc q (ps ! c) (rs ! c)"
            unfolding common_point_def by blast
          from verify_p_complete[OF radx l3 mvm mhx this] None show False by simp
        qed
        then have sets: "{T \<in> set ` set (pre' @ [x]). common_point ps rs T}
            = {T \<in> set ` set pre'. common_point ps rs T}" by auto
        have "simk_step_p ps rs st x = (Sk, m, v(set x \<mapsto> False))"
          using vn None by (simp add: st simk_step_p_def)
        moreover have "\<forall>T. (v(set x \<mapsto> False)) T \<noteq> None
            \<longleftrightarrow> ver T \<noteq> None \<or> T \<in> set ` set (pre' @ [x])"
          using vv by auto
        then have "I (pre' @ [x]) (Sk, m, v(set x \<mapsto> False))"
          unfolding I_def prod.case sets using mvm dm sk by blast
        ultimately show ?thesis by simp
      next
        case (Some w)
        from verify_p_sound[OF radx l3 mvm Some]
        have win: "\<forall>c \<in> set x. in_disc w (ps ! c) (rs ! c)" .
        then have cp: "common_point ps rs (set x)" unfolding common_point_def by blast
        have sets: "{T \<in> set ` set (pre' @ [x]). common_point ps rs T}
            = insert (set x) {T \<in> set ` set pre'. common_point ps rs T}" using cp by auto
        have mv': "memo_valid ps rs (m(set x \<mapsto> w))"
          using mvm win unfolding memo_valid_def by auto
        have "simk_step_p ps rs st x = (Sk @ [x], m(set x \<mapsto> w), v(set x \<mapsto> True))"
          using vn Some by (simp add: st simk_step_p_def)
        moreover have "\<forall>T. (v(set x \<mapsto> True)) T \<noteq> None
            \<longleftrightarrow> ver T \<noteq> None \<or> T \<in> set ` set (pre' @ [x])"
          using vv by auto
        moreover have "dom memo \<subseteq> dom (m(set x \<mapsto> w))" using dm by auto
        moreover have "set ` set (Sk @ [x]) = insert (set x) {T \<in> set ` set pre'. common_point ps rs T}"
          using sk by auto
        ultimately show ?thesis
          unfolding I_def sets using mv' by simp
      qed
    qed
  qed
  then have fin: "memo_valid ps rs memo'"
    "set ` set Sk = {T \<in> set ` set ?cands. common_point ps rs T}"
    "\<And>T. ver' T \<noteq> None \<longleftrightarrow> ver T \<noteq> None \<or> T \<in> set ` set ?cands"
    unfolding fl I_def by simp_all
  have "{T \<in> set ` set ?cands. common_point ps rs T} = cech_level ps rs k"
  proof (intro set_eqI iffI)
    fix T assume "T \<in> {T \<in> set ` set ?cands. common_point ps rs T}"
    then obtain cand where c: "cand \<in> set ?cands" "T = set cand" "common_point ps rs T" by auto
    from cok[OF c(1)] have "simplex_ok ?n k cand" by simp
    then have "card T = k + 1" "T \<subseteq> {..<?n}"
      unfolding c(2) by (auto simp: simplex_ok_def distinct_card)
    then show "T \<in> cech_level ps rs k" using c(3) by (simp add: cech_level_def)
  next
    fix T assume T: "T \<in> cech_level ps rs k"
    have "\<exists>cand \<in> set ?cands. set cand = T"
      by (rule cands_of_complete[OF nb rad _ _ lvok T]) (use k prev in auto)
    then show "T \<in> {T \<in> set ` set ?cands. common_point ps rs T}"
      using T by (auto simp: cech_level_def)
  qed
  moreover have "card T \<le> k + 1" if "ver' T \<noteq> None" for T
  proof -
    from that fin(3) consider "ver T \<noteq> None" | cand where "cand \<in> set ?cands" "T = set cand"
      by auto
    then show ?thesis
    proof cases
      case 1
      with vk have "card T \<le> k" by blast
      then show ?thesis by simp
    next
      case 2
      from cok[OF 2(1)] show ?thesis unfolding 2(2) by (simp add: simplex_ok_def distinct_card)
    qed
  qed
  ultimately show ?thesis using fin(1,2) by simp
qed

lemma CechComplex_simk_sem:
  assumes len: "length ps \<le> length rs" and rad: "\<forall>i < length ps. 0 \<le> rs ! i"
    and nb: "nb_sem ps rs nb"
  shows "2 \<le> k \<Longrightarrow> length S = k \<Longrightarrow> levels_ok (length ps) S \<Longrightarrow> memo_has memo S
     \<Longrightarrow> memo_valid ps rs memo \<Longrightarrow> (\<forall>T. ver T \<noteq> None \<longrightarrow> card T \<le> k)
     \<Longrightarrow> (\<forall>j < k. set ` set (S ! j) = cech_level ps rs j)
     \<Longrightarrow> (\<forall>j. 2 \<le> j \<and> j < k \<longrightarrow> \<not> cutoff maxK j \<and> cech_level ps rs j \<noteq> {})
     \<Longrightarrow> \<exists>S' memo'. CechComplex_simk ps rs maxK nb k S memo ver = Some (Inr (S', memo'))
          \<and> level_spec ps rs maxK S' \<and> levels_ok (length ps) S'
          \<and> memo_valid ps rs memo' \<and> memo_has memo' S'"
proof (induction "length ps + 1 - k" arbitrary: k S memo ver rule: less_induct)
  case less
  let ?n = "length ps"
  note k = \<open>2 \<le> k\<close> \<open>length S = k\<close>
  note lo = \<open>levels_ok ?n S\<close> and mh = \<open>memo_has memo S\<close> and mv = \<open>memo_valid ps rs memo\<close>
  note vk = \<open>\<forall>T. ver T \<noteq> None \<longrightarrow> card T \<le> k\<close>
  note sem = \<open>\<forall>j < k. set ` set (S ! j) = cech_level ps rs j\<close>
  note cut = \<open>\<forall>j. 2 \<le> j \<and> j < k \<longrightarrow> \<not> cutoff maxK j \<and> cech_level ps rs j \<noteq> {}\<close>
  have nbo: "nb_ok ?n nb" by (rule nb_sem_ok[OF nb])
  show ?case
  proof (cases "cutoff maxK k")
    case True
    have "CechComplex_simk ps rs maxK nb k S memo ver = Some (Inr (S, memo))"
      using True by (subst CechComplex_simk.simps) simp
    moreover have "level_spec ps rs maxK S"
      unfolding level_spec_def using k sem cut True by simp
    ultimately show ?thesis using lo mv mh by blast
  next
    case nocut: False
    have lv: "\<forall>s \<in> set (S ! (k - 1)). simplex_ok ?n (k - 1) s"
      using lo k by (auto simp: levels_ok_def)
    have mm: "\<forall>s \<in> set (S ! (k - 1)). memo (set s) \<noteq> None" if "3 \<le> k"
    proof -
      have "2 \<le> k - 1 \<and> k - 1 < length S" using that k by simp
      then show ?thesis using mh unfolding memo_has_def by blast
    qed
    let ?cands = "cands_of nb (S ! (k - 1))"
    obtain Sk memo' ver' where fl: "foldl (simk_step_p ps rs) ([], memo, ver) ?cands = (Sk, memo', ver')"
      by (cases "foldl (simk_step_p ps rs) ([], memo, ver) ?cands")
    have lvl: "CechComplex_simk_level ps rs nb S k memo ver = Inr (Sk, memo', ver')"
      using CechComplex_simk_level_in[OF order_refl len nbo k lv mm] fl by simp
    from simk_level_p_struct[OF fl]
    have sub: "set Sk \<subseteq> set ?cands" and has: "\<forall>s \<in> set Sk. memo' (set s) \<noteq> None"
      and dm: "dom memo \<subseteq> dom memo'" by auto
    have okk: "\<forall>s \<in> set Sk. simplex_ok ?n k s"
      using sub cands_of_simplex_ok[OF nbo lv] k by auto
    have mh1: "memo_has memo' S"
      using mh dm unfolding memo_has_def by (meson domIff subsetD)
    have prev: "set ` set (S ! (k - 1)) = cech_level ps rs (k - 1)" using sem k by simp
    from simk_level_p_sem[OF len rad nb k(1) prev lv mv mm vk fl]
    have sk: "set ` set Sk = cech_level ps rs k" and mv': "memo_valid ps rs memo'"
      and vk': "\<forall>T. ver' T \<noteq> None \<longrightarrow> card T \<le> k + 1" by simp_all
    show ?thesis
    proof (cases "Sk = []")
      case True
      have "CechComplex_simk ps rs maxK nb k S memo ver = Some (Inr (S, memo'))"
        using nocut lvl True by (subst CechComplex_simk.simps) simp
      moreover have "cech_level ps rs k = {}" using sk True by simp
      then have "level_spec ps rs maxK S"
        unfolding level_spec_def using k sem cut by simp
      ultimately show ?thesis using lo mv' mh1 by blast
    next
      case False
      then obtain s where "s \<in> set Sk" by (cases Sk) auto
      then have "k + 1 \<le> ?n" using okk simplex_ok_bound by blast
      then have meas: "?n + 1 - (k + 1) < ?n + 1 - k" by simp
      have lo': "levels_ok ?n (S @ [Sk])"
        using lo okk k unfolding levels_ok_def
        by (auto simp: nth_append less_Suc_eq)
      have mh': "memo_has memo' (S @ [Sk])"
        using mh1 has k unfolding memo_has_def
        by (auto simp: nth_append less_Suc_eq)
      have sem': "\<forall>j < k + 1. set ` set ((S @ [Sk]) ! j) = cech_level ps rs j"
        using sem sk k by (auto simp: nth_append less_Suc_eq)
      have "cech_level ps rs k \<noteq> {}" using sk False by auto
      then have cut': "\<forall>j. 2 \<le> j \<and> j < k + 1 \<longrightarrow> \<not> cutoff maxK j \<and> cech_level ps rs j \<noteq> {}"
        using cut nocut by (auto simp: less_Suc_eq)
      have "\<exists>S' memo''. CechComplex_simk ps rs maxK nb (k + 1) (S @ [Sk]) memo' ver' = Some (Inr (S', memo''))
          \<and> level_spec ps rs maxK S' \<and> levels_ok ?n S'
          \<and> memo_valid ps rs memo'' \<and> memo_has memo'' S'"
        by (rule less.hyps[OF meas _ _ lo' mh' mv' vk' sem' cut']) (use k in simp_all)
      then obtain S' memo'' where r: "CechComplex_simk ps rs maxK nb (k + 1) (S @ [Sk]) memo' ver' = Some (Inr (S', memo''))"
        and post: "level_spec ps rs maxK S'" "levels_ok ?n S'" "memo_valid ps rs memo''" "memo_has memo'' S'"
        by blast
      have "CechComplex_simk ps rs maxK nb k S memo ver = Some (Inr (S', memo''))"
        using nocut lvl False r by (subst CechComplex_simk.simps) simp
      then show ?thesis using post by blast
    qed
  qed
qed

lemma combinations_complete:
  "A \<subseteq> set xs \<Longrightarrow> card A = k \<Longrightarrow> \<exists>l \<in> set (combinations xs k). set l = A"
proof (induction xs k arbitrary: A rule: combinations.induct)
  case (1 xs)
  have "finite A" using "1.prems"(1) by (rule finite_subset) simp
  then have "A = {}" using "1.prems"(2) by simp
  then show ?case by simp
next
  case (2 k)
  then show ?case by simp
next
  case (3 x xs k)
  have fin: "finite A" using "3.prems"(1) by (rule finite_subset) simp
  show ?case
  proof (cases "x \<in> A")
    case True
    have "A - {x} \<subseteq> set xs" using "3.prems"(1) by auto
    moreover have "card (A - {x}) = k" using "3.prems"(2) True fin by simp
    ultimately obtain l where l: "l \<in> set (combinations xs k)" "set l = A - {x}"
      using "3.IH"(1) by blast
    then have "x # l \<in> set (combinations (x # xs) (Suc k))" "set (x # l) = A"
      using True by auto
    then show ?thesis by blast
  next
    case False
    then have "A \<subseteq> set xs" using "3.prems"(1) by auto
    then obtain l where "l \<in> set (combinations xs (Suc k))" "set l = A"
      using "3.IH"(2) "3.prems"(2) by blast
    then show ?thesis by auto
  qed
qed

lemma LE_level_sem:
  assumes rad: "\<forall>i < length ps. 0 \<le> rs ! i" and nb: "nb_sem ps rs nb"
  shows "set ` set (filter (verify_LE_p ps rs) (cands_LE nb (length ps) k)) = cech_level ps rs k"
proof (intro set_eqI iffI)
  let ?n = "length ps"
  fix T assume "T \<in> set ` set (filter (verify_LE_p ps rs) (cands_LE nb ?n k))"
  then obtain cand where c: "cand \<in> set (cands_LE nb ?n k)" "verify_LE_p ps rs cand" "T = set cand"
    by auto
  from cands_LE_simplex_ok[OF nb_sem_ok[OF nb] c(1)] have ok: "simplex_ok ?n k cand" .
  then have radc: "\<forall>x \<in> set cand. 0 \<le> rs ! x" and ne: "cand \<noteq> []"
    using rad by (auto simp: simplex_ok_def)
  from verify_LE_p_sound[OF radc ne c(2)] have "common_point ps rs T" by (simp add: c(3))
  moreover have "card T = k + 1" "T \<subseteq> {..<?n}"
    using ok unfolding c(3) by (auto simp: simplex_ok_def distinct_card)
  ultimately show "T \<in> cech_level ps rs k" by (simp add: cech_level_def)
next
  let ?n = "length ps"
  fix T assume "T \<in> cech_level ps rs k"
  then have Tn: "T \<subseteq> {..<?n}" and Tc: "card T = k + 1" and Tp: "common_point ps rs T"
    by (simp_all add: cech_level_def)
  have fin: "finite T" using Tc by (intro card_ge_0_finite) simp
  have "T \<noteq> {}" using Tc by auto
  then obtain i where i: "i \<in> T" by blast
  then have il: "i < ?n" using Tn by auto
  from Tp obtain p where p: "\<forall>x \<in> T. in_disc p (ps ! x) (rs ! x)"
    unfolding common_point_def by blast
  have "T - {i} \<subseteq> set (nb ! i)"
  proof
    fix c assume c: "c \<in> T - {i}"
    then have cl: "c < ?n" using Tn by auto
    have "overlap ps rs i c"
      using rad il cl p i c by (intro overlap_if_common[where p = p]) simp_all
    then show "c \<in> set (nb ! i)" using nb il cl c by (auto simp: nb_sem_def)
  qed
  moreover have "card (T - {i}) = k" using Tc i fin by simp
  ultimately obtain l where l: "l \<in> set (combinations (nb ! i) k)" "set l = T - {i}"
    using combinations_complete by blast
  have mem: "i # l \<in> set (cands_LE nb ?n k)" unfolding cands_LE_iff using il l(1) by blast
  have st: "set (i # l) = T" using l(2) i by auto
  have ok: "simplex_ok ?n k (i # l)" by (rule cands_LE_simplex_ok[OF nb_sem_ok[OF nb] mem])
  then have radc: "\<forall>x \<in> set (i # l). 0 \<le> rs ! x" using rad by (auto simp: simplex_ok_def)
  have "verify_LE_p ps rs (i # l)"
    by (rule verify_LE_p_complete[OF radc]) (use Tp st in simp_all)
  then show "T \<in> set ` set (filter (verify_LE_p ps rs) (cands_LE nb ?n k))"
    using mem st by (auto simp: image_iff intro!: bexI[of _ "i # l"])
qed

lemma CechComplexLE_simk_sem:
  assumes len: "length ps \<le> length rs" and rad: "\<forall>i < length ps. 0 \<le> rs ! i"
    and nb: "nb_sem ps rs nb"
  shows "2 \<le> k \<Longrightarrow> length S = k \<Longrightarrow> levels_ok (length ps) S
     \<Longrightarrow> (\<forall>j < k. set ` set (S ! j) = cech_level ps rs j)
     \<Longrightarrow> (\<forall>j. 2 \<le> j \<and> j < k \<longrightarrow> \<not> cutoff maxK j \<and> cech_level ps rs j \<noteq> {})
     \<Longrightarrow> \<exists>S'. CechComplexLE_simk ps rs maxK nb (length ps) k S = Some (Inr S')
          \<and> level_spec ps rs maxK S' \<and> levels_ok (length ps) S'"
proof (induction "length ps + 1 - k" arbitrary: k S rule: less_induct)
  case less
  let ?n = "length ps"
  note k = \<open>2 \<le> k\<close> \<open>length S = k\<close>
  note lo = \<open>levels_ok ?n S\<close>
  note sem = \<open>\<forall>j < k. set ` set (S ! j) = cech_level ps rs j\<close>
  note cut = \<open>\<forall>j. 2 \<le> j \<and> j < k \<longrightarrow> \<not> cutoff maxK j \<and> cech_level ps rs j \<noteq> {}\<close>
  have nbo: "nb_ok ?n nb" by (rule nb_sem_ok[OF nb])
  show ?case
  proof (cases "cutoff maxK k")
    case True
    have "CechComplexLE_simk ps rs maxK nb ?n k S = Some (Inr S)"
      using True by (subst CechComplexLE_simk.simps) simp
    moreover have "level_spec ps rs maxK S"
      unfolding level_spec_def using k sem cut True by simp
    ultimately show ?thesis using lo by blast
  next
    case nocut: False
    define Sk where "Sk = filter (verify_LE_p ps rs) (cands_LE nb ?n k)"
    have lvl: "CechComplexLE_simk_level ps rs nb ?n k = Inr Sk"
      unfolding Sk_def by (rule CechComplexLE_simk_level_in[OF order_refl len nbo])
    have okk: "\<forall>s \<in> set Sk. simplex_ok ?n k s"
      using cands_LE_simplex_ok[OF nbo] by (auto simp: Sk_def)
    have sk: "set ` set Sk = cech_level ps rs k"
      unfolding Sk_def by (rule LE_level_sem[OF rad nb])
    show ?thesis
    proof (cases "Sk = []")
      case True
      have "CechComplexLE_simk ps rs maxK nb ?n k S = Some (Inr S)"
        using nocut lvl True by (subst CechComplexLE_simk.simps) simp
      moreover have "cech_level ps rs k = {}" using sk True by simp
      then have "level_spec ps rs maxK S"
        unfolding level_spec_def using k sem cut by simp
      ultimately show ?thesis using lo by blast
    next
      case False
      then obtain s where "s \<in> set Sk" by (cases Sk) auto
      then have "k + 1 \<le> ?n" using okk simplex_ok_bound by blast
      then have meas: "?n + 1 - (k + 1) < ?n + 1 - k" by simp
      have lo': "levels_ok ?n (S @ [Sk])"
        using lo okk k unfolding levels_ok_def
        by (auto simp: nth_append less_Suc_eq)
      have sem': "\<forall>j < k + 1. set ` set ((S @ [Sk]) ! j) = cech_level ps rs j"
        using sem sk k by (auto simp: nth_append less_Suc_eq)
      have "cech_level ps rs k \<noteq> {}" using sk False by auto
      then have cut': "\<forall>j. 2 \<le> j \<and> j < k + 1 \<longrightarrow> \<not> cutoff maxK j \<and> cech_level ps rs j \<noteq> {}"
        using cut nocut by (auto simp: less_Suc_eq)
      have "\<exists>S'. CechComplexLE_simk ps rs maxK nb ?n (k + 1) (S @ [Sk]) = Some (Inr S')
          \<and> level_spec ps rs maxK S' \<and> levels_ok ?n S'"
        by (rule less.hyps[OF meas _ _ lo' sem' cut']) (use k in simp_all)
      then obtain S' where r: "CechComplexLE_simk ps rs maxK nb ?n (k + 1) (S @ [Sk]) = Some (Inr S')"
        and post: "level_spec ps rs maxK S'" "levels_ok ?n S'"
        by blast
      have "CechComplexLE_simk ps rs maxK nb ?n k S = Some (Inr S')"
        using nocut lvl False r by (subst CechComplexLE_simk.simps) simp
      then show ?thesis using post by blast
    qed
  qed
qed

lemma initial_levels_sem:
  assumes inv: "sim1_inv ps rs (length ps) {(i, j). i < j \<and> j < length ps} (nb, S1)"
    and rad: "\<forall>i < length ps. 0 \<le> rs ! i"
  shows "\<forall>j < 2. set ` set ([sim0 (length ps), S1] ! j) = cech_level ps rs j"
proof (intro allI impI)
  fix j :: nat assume "j < 2"
  then consider "j = 0" | "j = 1" by linarith
  then show "set ` set ([sim0 (length ps), S1] ! j) = cech_level ps rs j"
  proof cases
    case 1
    then show ?thesis using level0_sem[of ps rs] by simp
  next
    case 2
    then show ?thesis using level1_sem[OF inv rad] by simp
  qed
qed

lemma CechComplex_run_sem:
  assumes len: "length ps \<le> length rs" and rad: "\<forall>i < length ps. 0 \<le> rs ! i"
  shows "\<exists>S memo. CechComplex_run ps rs maxK = Some (Inr (S, memo))
        \<and> level_spec ps rs maxK S \<and> levels_ok (length ps) S
        \<and> memo_valid ps rs memo \<and> memo_has memo S"
proof -
  let ?n = "length ps"
  from sim1_total[of ?n ps rs] len obtain nb S1
    where s1: "sim1 ps rs ?n = Inr (nb, S1)"
      and inv: "sim1_inv ps rs ?n {(i, j). i < j \<and> j < ?n} (nb, S1)" by auto
  have mh: "memo_has Map.empty [sim0 ?n, S1]" by (auto simp: memo_has_def)
  have mv: "memo_valid ps rs Map.empty" by (simp add: memo_valid_def)
  have "\<exists>S' memo'. CechComplex_simk ps rs maxK nb 2 [sim0 ?n, S1] Map.empty Map.empty = Some (Inr (S', memo'))
          \<and> level_spec ps rs maxK S' \<and> levels_ok ?n S'
          \<and> memo_valid ps rs memo' \<and> memo_has memo' S'"
    by (rule CechComplex_simk_sem[OF len rad sim1_nb_sem[OF inv] _ _ sim1_nb_ok(2)[OF inv] mh mv _
          initial_levels_sem[OF inv rad]]) auto
  then show ?thesis
    using s1 by (simp add: CechComplex_run_def Let_def)
qed

lemma CechComplexLE_cech_sem:
  assumes len: "length ps \<le> length rs" and rad: "\<forall>i < length ps. 0 \<le> rs ! i"
  shows "\<exists>S. CechComplexLE_cech ps rs maxK = Some (Inr S)
        \<and> level_spec ps rs maxK S \<and> levels_ok (length ps) S"
proof -
  let ?n = "length ps"
  from sim1_total[of ?n ps rs] len obtain nb S1
    where s1: "sim1 ps rs ?n = Inr (nb, S1)"
      and inv: "sim1_inv ps rs ?n {(i, j). i < j \<and> j < ?n} (nb, S1)" by auto
  have "\<exists>S'. CechComplexLE_simk ps rs maxK nb ?n 2 [sim0 ?n, S1] = Some (Inr S')
          \<and> level_spec ps rs maxK S' \<and> levels_ok ?n S'"
    by (rule CechComplexLE_simk_sem[OF len rad sim1_nb_sem[OF inv] _ _ sim1_nb_ok(2)[OF inv]
          initial_levels_sem[OF inv rad]]) auto
  then show ?thesis
    using s1 by (simp add: CechComplexLE_cech_def Let_def)
qed

lemma level_spec_length:
  assumes a: "level_spec ps rs maxK S" and b: "level_spec ps' rs' maxK S'"
    and e: "\<And>j. cech_level ps rs j = {} \<longleftrightarrow> cech_level ps' rs' j = {}"
  shows "length S = length S'"
proof (rule ccontr)
  assume ne: "length S \<noteq> length S'"
  have l2: "2 \<le> length S" "2 \<le> length S'" using a b by (simp_all add: level_spec_def)
  from ne consider "length S < length S'" | "length S' < length S" by linarith
  then show False
  proof cases
    case 1
    then have "\<not> cutoff maxK (length S) \<and> cech_level ps' rs' (length S) \<noteq> {}"
      using b l2 unfolding level_spec_def by blast
    moreover have "cutoff maxK (length S) \<or> cech_level ps rs (length S) = {}"
      using a unfolding level_spec_def by blast
    ultimately show False using e by blast
  next
    case 2
    then have "\<not> cutoff maxK (length S') \<and> cech_level ps rs (length S') \<noteq> {}"
      using a l2 unfolding level_spec_def by blast
    moreover have "cutoff maxK (length S') \<or> cech_level ps' rs' (length S') = {}"
      using b unfolding level_spec_def by blast
    ultimately show False using e by blast
  qed
qed

section \<open>Equivalence of the strategies, monotonicity and relabelling\<close>

lemma radii_nth: "\<forall>r \<in> set rs. (0 :: real) \<le> r \<Longrightarrow> length ps \<le> length rs \<Longrightarrow> \<forall>i < length ps. 0 \<le> rs ! i"
  by auto

lemma level_spec_subsets:
  assumes sp: "level_spec ps rs maxK S" and k: "k < length S" and s: "s \<in> set (S ! k)"
    and T: "T \<noteq> {}" "T \<subseteq> set s"
  shows "card T - 1 < length S \<and> T \<in> set ` set (S ! (card T - 1))"
proof -
  have lv: "\<And>j. j < length S \<Longrightarrow> set ` set (S ! j) = cech_level ps rs j"
    using sp by (simp add: level_spec_def)
  have "set s \<in> cech_level ps rs k" using lv[OF k] s by blast
  then have ss: "set s \<subseteq> {..<length ps}" "card (set s) = k + 1" "common_point ps rs (set s)"
    by (simp_all add: cech_level_def)
  have fin: "finite T" using T(2) by (rule finite_subset) simp
  have c1: "1 \<le> card T" using T(1) fin by (simp add: Suc_le_eq card_gt_0_iff)
  have c2: "card T \<le> k + 1" using card_mono[OF _ T(2)] ss(2) by simp
  have j: "card T - 1 < length S" using c2 k by linarith
  have "T \<in> cech_level ps rs (card T - 1)"
    using ss(1) T(2) c1 common_point_mono[OF ss(3) T(2)] by (auto simp: cech_level_def)
  then show ?thesis using lv[OF j] j by simp
qed

lemma cech_level_relabel:
  assumes pi: "\<forall>i < length ps. \<pi> i < length ps \<and> \<sigma> (\<pi> i) = i"
    and sg: "\<forall>j < length ps. \<sigma> j < length ps \<and> \<pi> (\<sigma> j) = j"
    and len: "length ps \<le> length rs"
  shows "cech_level (map (\<lambda>j. ps ! \<sigma> j) [0..<length ps]) (map (\<lambda>j. rs ! \<sigma> j) [0..<length ps]) k
       = (\<lambda>T. \<pi> ` T) ` cech_level ps rs k"
proof (intro set_eqI iffI)
  let ?n = "length ps"
  let ?ps' = "map (\<lambda>j. ps ! \<sigma> j) [0..<?n]"
  let ?rs' = "map (\<lambda>j. rs ! \<sigma> j) [0..<?n]"
  fix U assume "U \<in> cech_level ?ps' ?rs' k"
  then have U: "U \<subseteq> {..<?n}" "card U = k + 1" "common_point ?ps' ?rs' U"
    by (simp_all add: cech_level_def)
  define T where "T = \<sigma> ` U"
  have inj: "inj_on \<sigma> U"
  proof (rule inj_onI)
    fix x y assume x: "x \<in> U" and y: "y \<in> U" and e: "\<sigma> x = \<sigma> y"
    have "x < ?n" "y < ?n" using x y U(1) by blast+
    then have "\<pi> (\<sigma> x) = x" "\<pi> (\<sigma> y) = y" using sg by blast+
    then show "x = y" using e by metis
  qed
  have pisg: "\<pi> (\<sigma> x) = x" if "x \<in> U" for x
  proof -
    have "x < ?n" using that U(1) by blast
    then show ?thesis using sg by blast
  qed
  have UT: "U = \<pi> ` T"
  proof (intro set_eqI iffI)
    fix x assume "x \<in> U"
    then have "x = \<pi> (\<sigma> x)" "\<sigma> x \<in> T" using pisg by (simp_all add: T_def)
    then show "x \<in> \<pi> ` T" by (rule image_eqI)
  next
    fix x assume "x \<in> \<pi> ` T"
    then obtain u where "u \<in> U" "x = \<pi> (\<sigma> u)" unfolding T_def by blast
    then show "x \<in> U" using pisg by simp
  qed
  have Tn: "T \<subseteq> {..<?n}"
  proof
    fix t assume "t \<in> T"
    then obtain u where u: "u \<in> U" "t = \<sigma> u" unfolding T_def by blast
    then have "u < ?n" using U(1) by blast
    then show "t \<in> {..<?n}" using sg u(2) by simp
  qed
  have Tc: "card T = k + 1" using U(2) inj by (simp add: T_def card_image)
  have Tp: "common_point ps rs T"
  proof -
    from U(3) obtain p where p: "\<forall>c \<in> U. in_disc p (?ps' ! c) (?rs' ! c)"
      unfolding common_point_def by blast
    have "in_disc p (ps ! \<sigma> c) (rs ! \<sigma> c)" if "c \<in> U" for c
    proof -
      have "c < ?n" using that U(1) by blast
      then have "?ps' ! c = ps ! \<sigma> c" "?rs' ! c = rs ! \<sigma> c" by simp_all
      moreover have "in_disc p (?ps' ! c) (?rs' ! c)" using p that by blast
      ultimately show ?thesis by simp
    qed
    then show ?thesis unfolding common_point_def T_def by blast
  qed
  have "T \<in> cech_level ps rs k" using Tn Tc Tp by (simp add: cech_level_def)
  with UT show "U \<in> (\<lambda>T. \<pi> ` T) ` cech_level ps rs k" by (rule image_eqI)
next
  let ?n = "length ps"
  let ?ps' = "map (\<lambda>j. ps ! \<sigma> j) [0..<?n]"
  let ?rs' = "map (\<lambda>j. rs ! \<sigma> j) [0..<?n]"
  fix U assume "U \<in> (\<lambda>T. \<pi> ` T) ` cech_level ps rs k"
  then obtain T where "U = \<pi> ` T" "T \<in> cech_level ps rs k" by blast
  then have T: "U = \<pi> ` T" "T \<subseteq> {..<?n}" "card T = k + 1" "common_point ps rs T"
    by (simp_all add: cech_level_def)
  have inj: "inj_on \<pi> T"
  proof (rule inj_onI)
    fix x y assume x: "x \<in> T" and y: "y \<in> T" and e: "\<pi> x = \<pi> y"
    have "x < ?n" "y < ?n" using x y T(2) by blast+
    then have "\<sigma> (\<pi> x) = x" "\<sigma> (\<pi> y) = y" using pi by blast+
    then show "x = y" using e by metis
  qed
  have "U \<subseteq> {..<length ?ps'}"
  proof
    fix u assume "u \<in> U"
    then obtain t where t: "t \<in> T" "u = \<pi> t" unfolding T(1) by blast
    then have "t < ?n" using T(2) by blast
    then show "u \<in> {..<length ?ps'}" using pi t(2) by simp
  qed
  moreover have "card U = k + 1" using T(1,3) inj by (simp add: card_image)
  moreover have "common_point ?ps' ?rs' U"
  proof -
    from T(4) obtain p where p: "\<forall>c \<in> T. in_disc p (ps ! c) (rs ! c)"
      unfolding common_point_def by blast
    have "in_disc p (?ps' ! \<pi> c) (?rs' ! \<pi> c)" if "c \<in> T" for c
    proof -
      have "c < ?n" using that T(2) by blast
      then have pc: "\<pi> c < ?n" "\<sigma> (\<pi> c) = c" using pi by blast+
      then have "?ps' ! \<pi> c = ps ! c" "?rs' ! \<pi> c = rs ! c" by simp_all
      moreover have "in_disc p (ps ! c) (rs ! c)" using p that by blast
      ultimately show ?thesis by simp
    qed
    then show ?thesis unfolding common_point_def T(1) by blast
  qed
  ultimately show "U \<in> cech_level ?ps' ?rs' k" by (simp add: cech_level_def)
qed








end
